theory Spec2Isabelle
  imports Main "HOL-Library.Word"
begin

section \<open>The Arduino hashmap: data model\<close>

text \<open>
  The library stores untyped pointers (\<^verbatim>\<open>any_key_t*\<close>, \<^verbatim>\<open>any_value_t*\<close>) and is driven
  through a handle \<^verbatim>\<open>hashmap_ptr\<close>; each of them can be the null pointer. A pointer is
  modelled by the value it refers to, or \<open>NULL\<close>.
\<close>

datatype 'a ptr = NULL | Ptr 'a

text \<open>
  The comparator and the hash function of a table are C functions that the caller
  supplies. Applied outside its domain such a function has undefined behaviour (as
  \<^verbatim>\<open>strcmp\<close> and \<^verbatim>\<open>strlen\<close> have on a null pointer): nothing can be said about what the
  program does from there. \<open>Undefined\<close> is that outcome, of a strategy and of every
  operation that calls it there; \<open>Returns x\<close> is a call that comes back with \<open>x\<close>.
\<close>

datatype 'a outcome = Undefined | Returns 'a

text \<open>
  Result codes of \<^verbatim>\<open>hashmap.h\<close>. Every operation returns a C \<^verbatim>\<open>int\<close>; the two internal
  search functions return either a bucket index or one of the negative codes.
\<close>

definition HASHMAP_DEFAULT_SIZE :: nat where [simp]: "HASHMAP_DEFAULT_SIZE = 16"
definition HASHMAP_OK :: int where [simp]: "HASHMAP_OK = 0"
definition HASHMAP_ERR :: int where [simp]: "HASHMAP_ERR = - 1"
definition HASHMAP_FULL :: int where [simp]: "HASHMAP_FULL = - 2"
definition HASHMAP_EMPTY :: int where [simp]: "HASHMAP_EMPTY = - 3"
definition HASHMAP_NOT_FOUND :: int where [simp]: "HASHMAP_NOT_FOUND = - 4"

text \<open>
  \<^verbatim>\<open>struct _hashmap_bucket\<close>. The byte \<^verbatim>\<open>_in_use\<close> is only ever assigned 0 (by
  \<^verbatim>\<open>calloc\<close> and by \<^verbatim>\<open>hashmap_remove\<close>) or 1 (by \<^verbatim>\<open>hashmap_put\<close>), so it is a
  \<open>bool\<close>: \<^verbatim>\<open>_in_use == 0\<close> reads \<open>\<not> bucket_in_use b\<close> and \<^verbatim>\<open>_in_use == 1\<close> reads
  \<open>bucket_in_use b\<close>.
\<close>

record ('k, 'v) hashmap_bucket =
  bucket_key :: "'k ptr"
  bucket_value :: "'v ptr"
  bucket_in_use :: bool

text \<open>
  A cell of the cached key array \<^verbatim>\<open>_keys\<close>. Memory handed out by \<^verbatim>\<open>realloc\<close> beyond the
  old block is not initialised; \<open>Uninit\<close> stands for such a cell.
\<close>

datatype 'k cell = Uninit | Cell "'k ptr"

text \<open>
  \<^verbatim>\<open>struct _hashmap_map\<close>. Sizes are \<^verbatim>\<open>size_t\<close> in the source; they are natural numbers
  here, which is exact as long as twice the capacity is representable (an array of that
  many buckets would not fit the address space otherwise). The hash is a \<^verbatim>\<open>uint32_t\<close>.
\<close>

record ('k, 'v) hashmap_map =
  map_buckets :: "('k, 'v) hashmap_bucket list"
  map_keys :: "'k cell list ptr"
  map_compare :: "'k ptr \<Rightarrow> 'k ptr \<Rightarrow> int outcome"
  map_hash :: "'k ptr \<Rightarrow> 32 word outcome"
  map_max_size :: nat
  map_cur_size :: nat
  map_changed :: bool

section \<open>Default string strategies\<close>

text \<open>
  A key of the default strategies is a C string: the bytes before the first NUL.
  \<^verbatim>\<open>strcmp\<close> returns the difference of the first pair of bytes that differ, read as
  \<^verbatim>\<open>unsigned char\<close>; only its being zero is ever tested.
\<close>

definition c_str :: "string \<Rightarrow> string" where
  "c_str s = takeWhile (\<lambda>c. c \<noteq> CHR 0x00) s"

definition strlen :: "string \<Rightarrow> nat" where
  "strlen s = length (c_str s)"

fun strcmp_bytes :: "string \<Rightarrow> string \<Rightarrow> int" where
  "strcmp_bytes [] [] = 0"
| "strcmp_bytes [] (y # ys) = - int (of_char y)"
| "strcmp_bytes (x # xs) [] = int (of_char x)"
| "strcmp_bytes (x # xs) (y # ys) =
     (if x = y then strcmp_bytes xs ys else int (of_char x) - int (of_char y))"

definition strcmp :: "string \<Rightarrow> string \<Rightarrow> int" where
  "strcmp s1 s2 = strcmp_bytes (c_str s1) (c_str s2)"

text \<open>
  \<^verbatim>\<open>hashmap_key_compare_str\<close> is \<^verbatim>\<open>strcmp\<close> on the two pointers as they come: with a
  null pointer on either side the call is undefined. (\<^verbatim>\<open>hashmap_find\<close> does call the
  comparator on the null key of a bucket that was never used.)
\<close>

fun hashmap_key_compare_str :: "string ptr \<Rightarrow> string ptr \<Rightarrow> int outcome" where
  "hashmap_key_compare_str (Ptr key1) (Ptr key2) = Returns (strcmp key1 key2)"
| "hashmap_key_compare_str NULL key2 = Undefined"
| "hashmap_key_compare_str (Ptr key1) NULL = Undefined"

text \<open>
  \<^verbatim>\<open>hashmap_key_hash_str\<close>: Bob Jenkins' one-at-a-time hash on 32-bit words.
  \<^verbatim>\<open>hash += key[i]\<close> adds a \<^verbatim>\<open>char\<close>, which avr-gcc sign-extends; bytes below 128 are
  the same under either signedness. On a null key \<^verbatim>\<open>strlen\<close> is undefined.
\<close>

definition char_to_u32 :: "char \<Rightarrow> 32 word" where
  "char_to_u32 c = (if (of_char c :: nat) < 128 then of_nat (of_char c)
                    else of_nat (of_char c) - 256)"

definition hash_step :: "32 word \<Rightarrow> char \<Rightarrow> 32 word" where
  "hash_step hash c =
     (let h1 = hash + char_to_u32 c;
          h2 = h1 + push_bit 10 h1
      in xor h2 (drop_bit 6 h2))"

definition hash_final :: "32 word \<Rightarrow> 32 word" where
  "hash_final hash =
     (let h1 = hash + push_bit 3 hash;
          h2 = xor h1 (drop_bit 11 h1)
      in h2 + push_bit 15 h2)"

fun hashmap_key_hash_str :: "string ptr \<Rightarrow> 32 word outcome" where
  "hashmap_key_hash_str (Ptr key) =
     Returns (hash_final (foldl hash_step 0 (take (strlen key) key)))"
| "hashmap_key_hash_str NULL = Undefined"

section \<open>Creation\<close>

text \<open>
  \<^verbatim>\<open>calloc\<close> may fail. Its outcome is a parameter of the model: \<open>calloc n\<close> tells whether
  a request for an array of \<open>n\<close> buckets is granted, \<open>calloc_map\<close> whether the table record
  itself could be allocated. A bucket fresh from \<^verbatim>\<open>calloc\<close> is all zero.
\<close>

definition zero_bucket :: "('k, 'v) hashmap_bucket" where
  "zero_bucket = \<lparr>bucket_key = NULL, bucket_value = NULL, bucket_in_use = False\<rparr>"

text \<open>
  \<^verbatim>\<open>hashmap_new\<close>. A null function pointer selects the string strategy, which is why the
  key type of a table built here is \<open>string\<close>; the operations below are generic.
\<close>

definition hashmap_new ::
  "bool \<Rightarrow> (nat \<Rightarrow> bool) \<Rightarrow> nat \<Rightarrow> (string ptr \<Rightarrow> string ptr \<Rightarrow> int outcome) ptr \<Rightarrow>
   (string ptr \<Rightarrow> 32 word outcome) ptr \<Rightarrow> (string, 'v) hashmap_map ptr" where
  "hashmap_new calloc_map calloc max_size compare_fun hash_fun =
     (if \<not> calloc_map then NULL
      else let n = (if max_size \<le> 0 then HASHMAP_DEFAULT_SIZE else max_size)
           in if \<not> calloc n then NULL
              else Ptr \<lparr>map_buckets = replicate n zero_bucket,
                        map_keys = NULL,
                        map_compare = (case compare_fun of NULL \<Rightarrow> hashmap_key_compare_str
                                       | Ptr f \<Rightarrow> f),
                        map_hash = (case hash_fun of NULL \<Rightarrow> hashmap_key_hash_str
                                    | Ptr f \<Rightarrow> f),
                        map_max_size = n,
                        map_cur_size = 0,
                        map_changed = True\<rparr>)"

text \<open>
  \<^verbatim>\<open>hashmap_delete\<close> only hands the table record and its two arrays back to the allocator;
  it has no counterpart here.
\<close>

section \<open>Placement and lookup\<close>

text \<open>
  The probing loop of \<^verbatim>\<open>hashmap_hash\<close>; the last argument counts the iterations that
  remain (\<^verbatim>\<open>_max_size - i\<close>). \<open>cur_index\<close> is always below the capacity, which is the
  length of the bucket array, and fits an \<^verbatim>\<open>int\<close>. The comparator is called only on a
  bucket that is in use.
\<close>

fun hashmap_hash_seek ::
  "('k, 'v) hashmap_map \<Rightarrow> 'k ptr \<Rightarrow> nat \<Rightarrow> nat \<Rightarrow> int outcome" where
  "hashmap_hash_seek m key cur_index 0 = Returns HASHMAP_FULL"
| "hashmap_hash_seek m key cur_index (Suc n) =
     (if \<not> bucket_in_use (map_buckets m ! cur_index) then Returns (int cur_index)
      else
        (case map_compare m (bucket_key (map_buckets m ! cur_index)) key of
           Undefined \<Rightarrow> Undefined
         | Returns c \<Rightarrow>
             if c = 0 \<and> bucket_in_use (map_buckets m ! cur_index)
             then Returns (int cur_index)
             else hashmap_hash_seek m key ((cur_index + 1) mod map_max_size m) n))"

definition hashmap_hash :: "('k, 'v) hashmap_map ptr \<Rightarrow> 'k ptr \<Rightarrow> int outcome" where
  "hashmap_hash mp key =
     (case mp of
        NULL \<Rightarrow> Returns HASHMAP_ERR
      | Ptr m \<Rightarrow>
          if map_cur_size m = map_max_size m then Returns HASHMAP_FULL
          else
            (case map_hash m key of
               Undefined \<Rightarrow> Undefined
             | Returns h \<Rightarrow>
                 hashmap_hash_seek m key (unat h mod map_max_size m) (map_max_size m)))"

text \<open>
  The probing loop of \<^verbatim>\<open>hashmap_find\<close>. It passes over unused buckets, and it calls the
  comparator on the key field of every bucket it visits before it tests \<^verbatim>\<open>_in_use\<close>:
  also on the stale key of a vacated bucket and on the null key of a bucket that was
  never used.
\<close>

fun hashmap_find_seek ::
  "('k, 'v) hashmap_map \<Rightarrow> 'k ptr \<Rightarrow> nat \<Rightarrow> nat \<Rightarrow> int outcome" where
  "hashmap_find_seek m key cur_index 0 = Returns HASHMAP_NOT_FOUND"
| "hashmap_find_seek m key cur_index (Suc n) =
     (case map_compare m (bucket_key (map_buckets m ! cur_index)) key of
        Undefined \<Rightarrow> Undefined
      | Returns c \<Rightarrow>
          if c = 0 \<and> bucket_in_use (map_buckets m ! cur_index)
          then Returns (int cur_index)
          else hashmap_find_seek m key ((cur_index + 1) mod map_max_size m) n)"

definition hashmap_find :: "('k, 'v) hashmap_map ptr \<Rightarrow> 'k ptr \<Rightarrow> int outcome" where
  "hashmap_find mp key =
     (case mp of
        NULL \<Rightarrow> Returns HASHMAP_ERR
      | Ptr m \<Rightarrow>
          if map_cur_size m = 0 then Returns HASHMAP_EMPTY
          else
            (case map_hash m key of
               Undefined \<Rightarrow> Undefined
             | Returns h \<Rightarrow>
                 hashmap_find_seek m key (unat h mod map_max_size m) (map_max_size m)))"

section \<open>Insertion and growth\<close>

text \<open>The five assignments at the end of \<^verbatim>\<open>hashmap_put\<close>.\<close>

definition fill_bucket ::
  "nat \<Rightarrow> 'k ptr \<Rightarrow> 'v ptr \<Rightarrow> ('k, 'v) hashmap_map \<Rightarrow> ('k, 'v) hashmap_map" where
  "fill_bucket index key val m =
     m\<lparr>map_buckets := (map_buckets m)
          [index := \<lparr>bucket_key = key, bucket_value = val, bucket_in_use = True\<rparr>],
       map_cur_size := map_cur_size m + 1,
       map_changed := True\<rparr>"

text \<open>
  \<^verbatim>\<open>hashmap_put\<close> and \<^verbatim>\<open>hashmap_rehash\<close> call each other, and the \<^verbatim>\<open>while\<close> loop of
  \<^verbatim>\<open>hashmap_put\<close> has no bound of its own (on a table of capacity 0 it would spin for
  ever). The model therefore carries fuel: every pass through the body of the \<^verbatim>\<open>while\<close>
  loop spends one unit, and \<open>None\<close> means that the fuel ran out. \<open>hashmap_put_while\<close> is
  the loop, entered with the index computed so far; \<open>hashmap_rehash_loop\<close> is the
  \<^verbatim>\<open>for\<close> loop of \<^verbatim>\<open>hashmap_rehash\<close> over the buckets of the old array that remain.
  A call of \<^verbatim>\<open>hashmap_hash\<close> that is undefined makes the whole operation undefined.
\<close>

function hashmap_put ::
    "nat \<Rightarrow> (nat \<Rightarrow> bool) \<Rightarrow> ('k, 'v) hashmap_map ptr \<Rightarrow> 'k ptr \<Rightarrow> 'v ptr \<Rightarrow>
     (int \<times> ('k, 'v) hashmap_map ptr) outcome option"
  and hashmap_put_while ::
    "nat \<Rightarrow> (nat \<Rightarrow> bool) \<Rightarrow> ('k, 'v) hashmap_map ptr \<Rightarrow> 'k ptr \<Rightarrow> 'v ptr \<Rightarrow> int \<Rightarrow>
     (int \<times> ('k, 'v) hashmap_map ptr) outcome option"
  and hashmap_rehash ::
    "nat \<Rightarrow> (nat \<Rightarrow> bool) \<Rightarrow> ('k, 'v) hashmap_map ptr \<Rightarrow>
     (int \<times> ('k, 'v) hashmap_map ptr) outcome option"
  and hashmap_rehash_loop ::
    "nat \<Rightarrow> (nat \<Rightarrow> bool) \<Rightarrow> ('k, 'v) hashmap_map ptr \<Rightarrow> ('k, 'v) hashmap_bucket list \<Rightarrow>
     (int \<times> ('k, 'v) hashmap_map ptr) outcome option"
where
  "hashmap_put fuel calloc mp key val =
     (case mp of
        NULL \<Rightarrow> Some (Returns (HASHMAP_ERR, NULL))
      | Ptr m \<Rightarrow>
          (case hashmap_hash mp key of
             Undefined \<Rightarrow> Some Undefined
           | Returns index \<Rightarrow> hashmap_put_while fuel calloc mp key val index))"
| "hashmap_put_while fuel calloc mp key val index =
     (if HASHMAP_FULL = index then
        (case fuel of
           0 \<Rightarrow> None
         | Suc fuel' \<Rightarrow>
             (case hashmap_rehash fuel' calloc mp of
                None \<Rightarrow> None
              | Some Undefined \<Rightarrow> Some Undefined
              | Some (Returns (status, mp')) \<Rightarrow>
                  if HASHMAP_OK = status
                  then
                    (case hashmap_hash mp' key of
                       Undefined \<Rightarrow> Some Undefined
                     | Returns index' \<Rightarrow> hashmap_put_while fuel' calloc mp' key val index')
                  else Some (Returns (HASHMAP_FULL, mp'))))
      else Some (Returns (HASHMAP_OK, map_ptr (fill_bucket (nat index) key val) mp)))"
| "hashmap_rehash fuel calloc mp =
     (case mp of
        NULL \<Rightarrow> Some (Returns (HASHMAP_ERR, NULL))
      | Ptr m \<Rightarrow>
          if \<not> calloc (2 * map_max_size m) then Some (Returns (HASHMAP_ERR, mp))
          else hashmap_rehash_loop fuel calloc
                 (Ptr (m\<lparr>map_buckets := replicate (2 * map_max_size m) zero_bucket,
                         map_max_size := map_max_size m * 2,
                         map_cur_size := 0\<rparr>))
                 (map_buckets m))"
| "hashmap_rehash_loop fuel calloc mp [] = Some (Returns (HASHMAP_OK, mp))"
| "hashmap_rehash_loop fuel calloc mp (b # old_buckets) =
     (if bucket_in_use b then
        (case hashmap_put fuel calloc mp (bucket_key b) (bucket_value b) of
           None \<Rightarrow> None
         | Some Undefined \<Rightarrow> Some Undefined
         | Some (Returns (status, mp')) \<Rightarrow>
             if status \<noteq> HASHMAP_OK then Some (Returns (status, mp'))
             else hashmap_rehash_loop fuel calloc mp' old_buckets)
      else hashmap_rehash_loop fuel calloc mp old_buckets)"
  by pat_completeness auto
termination
  by (relation "measures [
      (\<lambda>x. case x of Inl (Inl p) \<Rightarrow> fst p | Inl (Inr p) \<Rightarrow> fst p
               | Inr (Inl p) \<Rightarrow> fst p | Inr (Inr p) \<Rightarrow> fst p),
      (\<lambda>x. case x of Inl (Inl p) \<Rightarrow> 1 | Inl (Inr p) \<Rightarrow> 0
               | Inr (Inl p) \<Rightarrow> 3 | Inr (Inr p) \<Rightarrow> 2),
      (\<lambda>x. case x of Inl (Inl p) \<Rightarrow> 0 | Inl (Inr p) \<Rightarrow> 0
               | Inr (Inl p) \<Rightarrow> 0 | Inr (Inr p) \<Rightarrow> length (snd (snd (snd p))))]") auto

section \<open>Lookup, removal, key snapshot, iteration\<close>

text \<open>
  \<^verbatim>\<open>hashmap_get\<close>. The second component is what the call wrote through the output
  pointer \<^verbatim>\<open>value\<close> (which the source dereferences unchecked, so it is not null):
  \<open>None\<close> when it wrote nothing.
\<close>

definition hashmap_get ::
  "('k, 'v) hashmap_map ptr \<Rightarrow> 'k ptr \<Rightarrow> (int \<times> 'v ptr option) outcome" where
  "hashmap_get mp key =
     (case mp of
        NULL \<Rightarrow> Returns (HASHMAP_ERR, None)
      | Ptr m \<Rightarrow>
          (case hashmap_find mp key of
             Undefined \<Rightarrow> Undefined
           | Returns index \<Rightarrow>
               if index < 0 then Returns (index, None)
               else Returns (HASHMAP_OK, Some (bucket_value (map_buckets m ! nat index)))))"

text \<open>
  \<^verbatim>\<open>hashmap_remove\<close>. \<open>has_value\<close> tells whether the output pointer \<^verbatim>\<open>value\<close> is
  non-null. The result is the status, the table and what was written through \<^verbatim>\<open>value\<close>.
\<close>

definition clear_bucket :: "nat \<Rightarrow> ('k, 'v) hashmap_map \<Rightarrow> ('k, 'v) hashmap_map" where
  "clear_bucket index m =
     m\<lparr>map_buckets := (map_buckets m)
          [index := (map_buckets m ! index)\<lparr>bucket_in_use := False\<rparr>],
       map_cur_size := map_cur_size m - 1,
       map_changed := True\<rparr>"

definition hashmap_remove ::
  "('k, 'v) hashmap_map ptr \<Rightarrow> 'k ptr \<Rightarrow> bool \<Rightarrow>
   (int \<times> ('k, 'v) hashmap_map ptr \<times> 'v ptr option) outcome" where
  "hashmap_remove mp key has_value =
     (case mp of
        NULL \<Rightarrow> Returns (HASHMAP_ERR, NULL, None)
      | Ptr m \<Rightarrow>
          (case hashmap_find mp key of
             Undefined \<Rightarrow> Undefined
           | Returns index \<Rightarrow>
               if index < 0 then Returns (index, mp, None)
               else Returns (HASHMAP_OK, Ptr (clear_bucket (nat index) m),
                      if has_value then Some (bucket_value (map_buckets m ! nat index))
                      else None)))"

text \<open>
  \<^verbatim>\<open>realloc\<close> keeps the old block's content up to the new size; the rest is not
  initialised. \<open>realloc_ok n\<close> tells whether a request for \<open>n\<close> key cells is granted.
\<close>

definition realloc_cells :: "'k cell list ptr \<Rightarrow> nat \<Rightarrow> 'k cell list" where
  "realloc_cells old n =
     (case old of
        NULL \<Rightarrow> replicate n Uninit
      | Ptr cells \<Rightarrow> take n cells @ replicate (n - length cells) Uninit)"

text \<open>
  The copying loop of \<^verbatim>\<open>hashmap_keys\<close> over the buckets that remain, with \<open>j\<close> the next
  free position of the key array; it stops when \<open>j\<close> reaches \<^verbatim>\<open>_cur_size\<close>.
\<close>

fun hashmap_keys_copy ::
  "('k, 'v) hashmap_bucket list \<Rightarrow> nat \<Rightarrow> nat \<Rightarrow> 'k cell list \<Rightarrow> 'k cell list" where
  "hashmap_keys_copy [] j cur_size cells = cells"
| "hashmap_keys_copy (b # bs) j cur_size cells =
     (if j < cur_size then
        (if bucket_in_use b
         then hashmap_keys_copy bs (j + 1) cur_size (cells[j := Cell (bucket_key b)])
         else hashmap_keys_copy bs j cur_size cells)
      else cells)"

definition hashmap_keys ::
  "(nat \<Rightarrow> bool) \<Rightarrow> ('k, 'v) hashmap_map ptr \<Rightarrow>
   int \<times> ('k, 'v) hashmap_map ptr \<times> ('k cell list ptr \<times> nat) option" where
  "hashmap_keys realloc_ok mp =
     (case mp of
        NULL \<Rightarrow> (HASHMAP_ERR, NULL, None)
      | Ptr m \<Rightarrow>
          if map_cur_size m = 0 then (HASHMAP_EMPTY, mp, None)
          else if map_changed m then
            (if \<not> realloc_ok (map_cur_size m)
             then (HASHMAP_ERR, Ptr (m\<lparr>map_keys := NULL\<rparr>), None)
             else
               (let cells = hashmap_keys_copy (map_buckets m) 0 (map_cur_size m)
                              (realloc_cells (map_keys m) (map_cur_size m))
                in (HASHMAP_OK, Ptr (m\<lparr>map_keys := Ptr cells, map_changed := False\<rparr>),
                    Some (Ptr cells, map_cur_size m))))
          else (HASHMAP_OK, mp, Some (map_keys m, map_cur_size m)))"

text \<open>
  A callback \<^verbatim>\<open>hashmap_fun\<close> receives the caller's \<^verbatim>\<open>data\<close> and a value reference and
  returns a status; what it does to \<^verbatim>\<open>data\<close> is its second result. The loop of
  \<^verbatim>\<open>hashmap_iterate_impl\<close> runs over the buckets that remain.
\<close>

fun hashmap_iterate_loop ::
  "('k, 'v) hashmap_bucket list \<Rightarrow> ('d \<Rightarrow> 'v ptr \<Rightarrow> int \<times> 'd) \<Rightarrow> 'd \<Rightarrow> bool \<Rightarrow> int \<times> 'd"
  where
  "hashmap_iterate_loop [] fn data check_status = (HASHMAP_OK, data)"
| "hashmap_iterate_loop (b # bs) fn data check_status =
     (if bucket_in_use b then
        (case fn data (bucket_value b) of
           (status, data') \<Rightarrow>
             if check_status \<and> status \<noteq> HASHMAP_OK then (status, data')
             else hashmap_iterate_loop bs fn data' check_status)
      else hashmap_iterate_loop bs fn data check_status)"

definition hashmap_iterate_impl ::
  "('k, 'v) hashmap_map ptr \<Rightarrow> ('d \<Rightarrow> 'v ptr \<Rightarrow> int \<times> 'd) \<Rightarrow> 'd \<Rightarrow> bool \<Rightarrow> int \<times> 'd"
  where
  "hashmap_iterate_impl mp fn data check_status =
     (case mp of
        NULL \<Rightarrow> (HASHMAP_ERR, data)
      | Ptr m \<Rightarrow>
          if map_cur_size m = 0 then (HASHMAP_OK, data)
          else hashmap_iterate_loop (map_buckets m) fn data check_status)"

definition hashmap_iterate ::
  "('k, 'v) hashmap_map ptr \<Rightarrow> ('d \<Rightarrow> 'v ptr \<Rightarrow> int \<times> 'd) \<Rightarrow> 'd \<Rightarrow> int \<times> 'd" where
  "hashmap_iterate mp fn data = hashmap_iterate_impl mp fn data False"

definition hashmap_iterate_check_ok_status ::
  "('k, 'v) hashmap_map ptr \<Rightarrow> ('d \<Rightarrow> 'v ptr \<Rightarrow> int \<times> 'd) \<Rightarrow> 'd \<Rightarrow> int \<times> 'd" where
  "hashmap_iterate_check_ok_status mp fn data = hashmap_iterate_impl mp fn data True"

section \<open>Notions used to state the properties\<close>

text \<open>
  The representation invariant that \<^verbatim>\<open>hashmap_new\<close> establishes and every operation
  keeps: the capacity is positive and is the length of the bucket array.
\<close>

definition table_ok :: "('k, 'v) hashmap_map \<Rightarrow> bool" where
  "table_ok m \<longleftrightarrow> 0 < map_max_size m \<and> length (map_buckets m) = map_max_size m"

text \<open>The record that a successful \<^verbatim>\<open>hashmap_new\<close> returns, and its choice of a strategy.\<close>

definition new_map ::
  "nat \<Rightarrow> ('k ptr \<Rightarrow> 'k ptr \<Rightarrow> int outcome) \<Rightarrow> ('k ptr \<Rightarrow> 32 word outcome) \<Rightarrow>
   ('k, 'v) hashmap_map" where
  "new_map n cmp hsh =
     \<lparr>map_buckets = replicate n zero_bucket, map_keys = NULL, map_compare = cmp,
      map_hash = hsh, map_max_size = n, map_cur_size = 0, map_changed = True\<rparr>"

definition strategy :: "'f \<Rightarrow> 'f ptr \<Rightarrow> 'f" where
  "strategy dflt fp = (case fp of NULL \<Rightarrow> dflt | Ptr f \<Rightarrow> f)"

text \<open>The value references of the occupied buckets, in slot-index order.\<close>

definition live_values :: "('k, 'v) hashmap_map \<Rightarrow> 'v ptr list" where
  "live_values m = map bucket_value (filter bucket_in_use (map_buckets m))"

text \<open>
  What a caller expects of the two iteration entry points, told on the list of values
  to visit: \<open>visit_all\<close> calls the callback once on each value, in order, whatever it
  returns; \<open>visit_until\<close> stops after the first call that returns a status other than
  \<^verbatim>\<open>HASHMAP_OK\<close> and returns that status.
\<close>

fun visit_all :: "('d \<Rightarrow> 'v ptr \<Rightarrow> int \<times> 'd) \<Rightarrow> 'd \<Rightarrow> 'v ptr list \<Rightarrow> 'd" where
  "visit_all fn data [] = data"
| "visit_all fn data (v # vs) = visit_all fn (snd (fn data v)) vs"

fun visit_until :: "('d \<Rightarrow> 'v ptr \<Rightarrow> int \<times> 'd) \<Rightarrow> 'd \<Rightarrow> 'v ptr list \<Rightarrow> int \<times> 'd" where
  "visit_until fn data [] = (HASHMAP_OK, data)"
| "visit_until fn data (v # vs) =
     (case fn data v of
        (status, data') \<Rightarrow>
          if status \<noteq> HASHMAP_OK then (status, data') else visit_until fn data' vs)"

text \<open>
  The two searches without the test of the count that precedes them: hash the key, then
  probe from \<^verbatim>\<open>_hash(key) % _max_size\<close>. \<open>probe\<close> is the search of \<^verbatim>\<open>hashmap_hash\<close>,
  \<open>scan\<close> the one of \<^verbatim>\<open>hashmap_find\<close>.
\<close>

definition probe :: "('k, 'v) hashmap_map \<Rightarrow> 'k ptr \<Rightarrow> int outcome" where
  "probe m key =
     (case map_hash m key of
        Undefined \<Rightarrow> Undefined
      | Returns h \<Rightarrow> hashmap_hash_seek m key (unat h mod map_max_size m) (map_max_size m))"

definition scan :: "('k, 'v) hashmap_map \<Rightarrow> 'k ptr \<Rightarrow> int outcome" where
  "scan m key =
     (case map_hash m key of
        Undefined \<Rightarrow> Undefined
      | Returns h \<Rightarrow> hashmap_find_seek m key (unat h mod map_max_size m) (map_max_size m))"

text \<open>
  What \<^verbatim>\<open>hashmap_put\<close> does when \<^verbatim>\<open>hashmap_hash\<close> yields an index: it fills that bucket.
\<close>

definition place ::
  "'k ptr \<Rightarrow> 'v ptr \<Rightarrow> ('k, 'v) hashmap_map \<Rightarrow> ('k, 'v) hashmap_map outcome" where
  "place key val m =
     (case hashmap_hash (Ptr m) key of
        Undefined \<Rightarrow> Undefined
      | Returns index \<Rightarrow> Returns (fill_bucket (nat index) key val m))"

text \<open>
  The table at the start of the \<^verbatim>\<open>for\<close> loop of \<^verbatim>\<open>hashmap_rehash\<close>: a zeroed array of
  twice the capacity and a count of zero.
\<close>

definition grow :: "('k, 'v) hashmap_map \<Rightarrow> ('k, 'v) hashmap_map" where
  "grow m = m\<lparr>map_buckets := replicate (2 * map_max_size m) zero_bucket,
              map_max_size := map_max_size m * 2,
              map_cur_size := 0\<rparr>"

text \<open>
  Placing the occupied buckets of an old array one after the other, in slot-index order.
\<close>

fun reinsert ::
  "('k, 'v) hashmap_map \<Rightarrow> ('k, 'v) hashmap_bucket list \<Rightarrow> ('k, 'v) hashmap_map outcome"
  where
  "reinsert m [] = Returns m"
| "reinsert m (b # bs) =
     (if bucket_in_use b then
        (case place (bucket_key b) (bucket_value b) m of
           Undefined \<Rightarrow> Undefined
         | Returns m' \<Rightarrow> reinsert m' bs)
      else reinsert m bs)"

text \<open>The number of occupied buckets.\<close>

definition in_use_count :: "('k, 'v) hashmap_map \<Rightarrow> nat" where
  "in_use_count m = length (filter bucket_in_use (map_buckets m))"

text \<open>
  The count \<^verbatim>\<open>_cur_size\<close> is at least the number of occupied buckets, on a well-formed
  table.
\<close>

definition sound :: "('k, 'v) hashmap_map \<Rightarrow> bool" where
  "sound m \<longleftrightarrow> table_ok m \<and> in_use_count m \<le> map_cur_size m"

text \<open>
  The outcome of \<^verbatim>\<open>hashmap_put\<close> on a well-formed table, without fuel: the bucket is
  filled at once, or the allocation fails, or the table is rebuilt at twice the capacity
  and the bucket is filled there; undefined as soon as one of the searches is.
\<close>

definition put_result ::
  "(nat \<Rightarrow> bool) \<Rightarrow> ('k, 'v) hashmap_map \<Rightarrow> 'k ptr \<Rightarrow> 'v ptr \<Rightarrow>
   (int \<times> ('k, 'v) hashmap_map ptr) outcome" where
  "put_result calloc m key val =
     (case hashmap_hash (Ptr m) key of
        Undefined \<Rightarrow> Undefined
      | Returns index \<Rightarrow>
          if index \<noteq> HASHMAP_FULL
          then Returns (HASHMAP_OK, Ptr (fill_bucket (nat index) key val m))
          else if \<not> calloc (2 * map_max_size m) then Returns (HASHMAP_FULL, Ptr m)
          else
            (case reinsert (grow m) (map_buckets m) of
               Undefined \<Rightarrow> Undefined
             | Returns m2 \<Rightarrow>
                 (case place key val m2 of
                    Undefined \<Rightarrow> Undefined
                  | Returns m' \<Rightarrow> Returns (HASHMAP_OK, Ptr m'))))"

text \<open>
  Two allocators for the examples: one that grants every request, one that grants requests
  for at most \<open>limit\<close> elements.
\<close>

definition calloc_any :: "nat \<Rightarrow> bool" where
  "calloc_any n \<longleftrightarrow> True"

definition calloc_upto :: "nat \<Rightarrow> nat \<Rightarrow> bool" where
  "calloc_upto limit n \<longleftrightarrow> n \<le> limit"

text \<open>
  The strategies a caller must supply, on a set \<open>D\<close> of keys: on keys of \<open>D\<close> the
  comparator and the hash function are defined, the comparator's "equal" (result 0) is an
  equivalence relation, and keys that compare equal have the same hash.
\<close>

definition consistent_on ::
  "'k ptr set \<Rightarrow> ('k ptr \<Rightarrow> 'k ptr \<Rightarrow> int outcome) \<Rightarrow> ('k ptr \<Rightarrow> 32 word outcome) \<Rightarrow> bool"
  where
  "consistent_on D cmp hsh \<longleftrightarrow>
     (\<forall>a\<in>D. hsh a \<noteq> Undefined) \<and>
     (\<forall>a\<in>D. \<forall>b\<in>D. cmp a b \<noteq> Undefined) \<and>
     (\<forall>a\<in>D. cmp a a = Returns 0) \<and>
     (\<forall>a\<in>D. \<forall>b\<in>D. cmp a b = Returns 0 \<longrightarrow> cmp b a = Returns 0) \<and>
     (\<forall>a\<in>D. \<forall>b\<in>D. \<forall>c\<in>D. cmp a b = Returns 0 \<longrightarrow> cmp b c = Returns 0
        \<longrightarrow> cmp a c = Returns 0) \<and>
     (\<forall>a\<in>D. \<forall>b\<in>D. cmp a b = Returns 0 \<longrightarrow> hsh a = hsh b)"

text \<open>The first two conditions alone: both strategies are defined on the keys of \<open>D\<close>.\<close>

definition defined_on ::
  "'k ptr set \<Rightarrow> ('k ptr \<Rightarrow> 'k ptr \<Rightarrow> int outcome) \<Rightarrow> ('k ptr \<Rightarrow> 32 word outcome) \<Rightarrow> bool"
  where
  "defined_on D cmp hsh \<longleftrightarrow>
     (\<forall>a\<in>D. hsh a \<noteq> Undefined) \<and> (\<forall>a\<in>D. \<forall>b\<in>D. cmp a b \<noteq> Undefined)"

text \<open>The keys of the occupied buckets all lie in \<open>D\<close>.\<close>

definition keys_in :: "'k ptr set \<Rightarrow> ('k, 'v) hashmap_map \<Rightarrow> bool" where
  "keys_in D m \<longleftrightarrow>
     (\<forall>i<map_max_size m. bucket_in_use (map_buckets m ! i)
        \<longrightarrow> bucket_key (map_buckets m ! i) \<in> D)"

text \<open>
  Every occupied bucket is where the placement search for its own key ends: all buckets on
  the probe path before it are occupied by other keys.
\<close>

definition finds_own_slot :: "('k, 'v) hashmap_map \<Rightarrow> bool" where
  "finds_own_slot m \<longleftrightarrow>
     (\<forall>i<map_max_size m. bucket_in_use (map_buckets m ! i) \<longrightarrow>
        probe m (bucket_key (map_buckets m ! i)) = Returns (int i))"

text \<open>The table holds \<open>val\<close> under a key that compares equal to \<open>key\<close>.\<close>

definition entry :: "('k, 'v) hashmap_map \<Rightarrow> 'k ptr \<Rightarrow> 'v ptr \<Rightarrow> bool" where
  "entry m key val \<longleftrightarrow>
     (\<exists>i<map_max_size m. bucket_in_use (map_buckets m ! i)
        \<and> map_compare m (bucket_key (map_buckets m ! i)) key = Returns 0
        \<and> bucket_value (map_buckets m ! i) = val)"

text \<open>
  The invariant of a table that has only ever been put into, with keys of \<open>D\<close> and
  strategies that are consistent there.
\<close>

definition well_kept :: "'k ptr set \<Rightarrow> ('k, 'v) hashmap_map \<Rightarrow> bool" where
  "well_kept D m \<longleftrightarrow>
     sound m \<and> finds_own_slot m \<and> keys_in D m
     \<and> consistent_on D (map_compare m) (map_hash m)"

text \<open>No two keys of the list compare equal, in either order.\<close>

definition distinct_keys :: "('k ptr \<Rightarrow> 'k ptr \<Rightarrow> int outcome) \<Rightarrow> 'k ptr list \<Rightarrow> bool" where
  "distinct_keys cmp ks \<longleftrightarrow>
     (\<forall>i<length ks. \<forall>j<length ks. i \<noteq> j \<longrightarrow> cmp (ks ! i) (ks ! j) \<noteq> Returns 0)"

text \<open>
  A caller's loop that puts the pairs of a list one after the other and collects the
  statuses; \<open>None\<close> when a put ran out of fuel, undefined when a put is.
\<close>

fun put_all ::
  "nat \<Rightarrow> (nat \<Rightarrow> bool) \<Rightarrow> ('k, 'v) hashmap_map ptr \<Rightarrow> ('k ptr \<times> 'v ptr) list \<Rightarrow>
   (int list \<times> ('k, 'v) hashmap_map ptr) outcome option" where
  "put_all fuel calloc mp [] = Some (Returns ([], mp))"
| "put_all fuel calloc mp ((key, val) # kvs) =
     (case hashmap_put fuel calloc mp key val of
        None \<Rightarrow> None
      | Some Undefined \<Rightarrow> Some Undefined
      | Some (Returns (status, mp')) \<Rightarrow>
          (case put_all fuel calloc mp' kvs of
             None \<Rightarrow> None
           | Some Undefined \<Rightarrow> Some Undefined
           | Some (Returns (statuses, mp'')) \<Rightarrow> Some (Returns (status # statuses, mp''))))"

text \<open>
  The key references of the occupied buckets, in slot-index order, as cells of a key array.
\<close>

definition occupied_keys :: "('k, 'v) hashmap_map \<Rightarrow> 'k cell list" where
  "occupied_keys m = map (\<lambda>b. Cell (bucket_key b)) (filter bucket_in_use (map_buckets m))"

text \<open>
  The tables a program can hold: what \<^verbatim>\<open>hashmap_new\<close> returns, and what \<^verbatim>\<open>hashmap_put\<close>,
  \<^verbatim>\<open>hashmap_remove\<close> and \<^verbatim>\<open>hashmap_keys\<close> leave behind when they return, each call with
  any arguments, any fuel and any allocator.
\<close>

inductive reachable :: "(string, 'v) hashmap_map \<Rightarrow> bool" where
  new: "hashmap_new calloc_map calloc max_size compare_fun hash_fun = Ptr m \<Longrightarrow> reachable m"
| put: "reachable m \<Longrightarrow>
        hashmap_put fuel calloc (Ptr m) key val = Some (Returns (status, Ptr m'))
        \<Longrightarrow> reachable m'"
| remove: "reachable m \<Longrightarrow>
        hashmap_remove (Ptr m) key has_value = Returns (status, Ptr m', out)
        \<Longrightarrow> reachable m'"
| keys: "reachable m \<Longrightarrow> hashmap_keys realloc_ok (Ptr m) = (status, Ptr m', out)
        \<Longrightarrow> reachable m'"

section \<open>Creation\<close>

lemma hashmap_new_eq:
  "hashmap_new calloc_map calloc max_size compare_fun hash_fun =
     (if calloc_map \<and> calloc (if max_size = 0 then 16 else max_size)
      then Ptr (new_map (if max_size = 0 then 16 else max_size)
                  (strategy hashmap_key_compare_str compare_fun)
                  (strategy hashmap_key_hash_str hash_fun))
      else NULL)"
  by (simp add: hashmap_new_def new_map_def strategy_def Let_def)

lemma new_map_simps [simp]:
  "map_buckets (new_map n cmp hsh) = replicate n zero_bucket"
  "map_keys (new_map n cmp hsh) = NULL"
  "map_compare (new_map n cmp hsh) = cmp"
  "map_hash (new_map n cmp hsh) = hsh"
  "map_max_size (new_map n cmp hsh) = n"
  "map_cur_size (new_map n cmp hsh) = 0"
  "map_changed (new_map n cmp hsh) = True"
  by (simp_all add: new_map_def)

lemma zero_bucket_simps [simp]:
  "bucket_key zero_bucket = NULL"
  "bucket_value zero_bucket = NULL"
  "bucket_in_use zero_bucket = False"
  by (simp_all add: zero_bucket_def)

lemma table_ok_new_map: "0 < n \<Longrightarrow> table_ok (new_map n cmp hsh)"
  by (simp add: table_ok_def)

section \<open>Queries on a table whose count is zero\<close>

text \<open>
  When the field \<^verbatim>\<open>_cur_size\<close> is zero, \<^verbatim>\<open>hashmap_find\<close> returns \<^verbatim>\<open>HASHMAP_EMPTY\<close>
  before it hashes or compares anything, and \<^verbatim>\<open>hashmap_get\<close> and \<^verbatim>\<open>hashmap_remove\<close> pass
  that code on.
\<close>

lemma zero_count_queries:
  assumes "map_cur_size m = 0"
  shows "hashmap_get (Ptr m) key = Returns (HASHMAP_EMPTY, None)"
    and "hashmap_remove (Ptr m) key has_value = Returns (HASHMAP_EMPTY, Ptr m, None)"
  using assms by (simp_all add: hashmap_get_def hashmap_remove_def hashmap_find_def)

section \<open>Iteration\<close>

lemma iterate_loop_all:
  "hashmap_iterate_loop bs fn data False =
     (HASHMAP_OK, visit_all fn data (map bucket_value (filter bucket_in_use bs)))"
  by (induction bs arbitrary: data) (auto split: prod.splits)

lemma iterate_loop_until:
  "hashmap_iterate_loop bs fn data True =
     visit_until fn data (map bucket_value (filter bucket_in_use bs))"
  by (induction bs arbitrary: data) (auto split: prod.splits)

text \<open>
  Claim C9. On a table whose count is zero only when no bucket is occupied,
  \<^verbatim>\<open>hashmap_iterate\<close> calls the callback exactly once on the value of every occupied
  bucket, in slot-index order, and returns \<^verbatim>\<open>HASHMAP_OK\<close> whatever the callback returned;
  \<^verbatim>\<open>hashmap_iterate_check_ok_status\<close> makes the same calls up to the first one whose
  status is not \<^verbatim>\<open>HASHMAP_OK\<close>, stops there and returns that status.
\<close>

theorem iterate_visits_live_entries:
  assumes "map_cur_size m = 0 \<longrightarrow> live_values m = []"
  shows "hashmap_iterate (Ptr m) fn data = (HASHMAP_OK, visit_all fn data (live_values m))
       \<and> hashmap_iterate_check_ok_status (Ptr m) fn data = visit_until fn data (live_values m)"
  using assms
  by (auto simp: hashmap_iterate_def hashmap_iterate_check_ok_status_def
      hashmap_iterate_impl_def iterate_loop_all iterate_loop_until live_values_def)

theorem iterate_visits_live_entries_witness:
  "hashmap_iterate
     (Ptr \<lparr>map_buckets =
             [\<lparr>bucket_key = Ptr ''a'', bucket_value = Ptr (1::nat), bucket_in_use = True\<rparr>,
              \<lparr>bucket_key = Ptr ''b'', bucket_value = Ptr 2, bucket_in_use = False\<rparr>,
              \<lparr>bucket_key = Ptr ''c'', bucket_value = Ptr 3, bucket_in_use = True\<rparr>,
              \<lparr>bucket_key = Ptr ''d'', bucket_value = Ptr 4, bucket_in_use = True\<rparr>],
           map_keys = NULL, map_compare = hashmap_key_compare_str,
           map_hash = hashmap_key_hash_str, map_max_size = 4, map_cur_size = 3,
           map_changed = True\<rparr>)
     (\<lambda>seen v. (if v = Ptr 3 then HASHMAP_ERR else HASHMAP_OK, seen @ [v])) []
   = (HASHMAP_OK, [Ptr 1, Ptr 3, Ptr 4])
   \<and> hashmap_iterate_check_ok_status
     (Ptr \<lparr>map_buckets =
             [\<lparr>bucket_key = Ptr ''a'', bucket_value = Ptr (1::nat), bucket_in_use = True\<rparr>,
              \<lparr>bucket_key = Ptr ''b'', bucket_value = Ptr 2, bucket_in_use = False\<rparr>,
              \<lparr>bucket_key = Ptr ''c'', bucket_value = Ptr 3, bucket_in_use = True\<rparr>,
              \<lparr>bucket_key = Ptr ''d'', bucket_value = Ptr 4, bucket_in_use = True\<rparr>],
           map_keys = NULL, map_compare = hashmap_key_compare_str,
           map_hash = hashmap_key_hash_str, map_max_size = 4, map_cur_size = 3,
           map_changed = True\<rparr>)
     (\<lambda>seen v. (if v = Ptr 3 then HASHMAP_ERR else HASHMAP_OK, seen @ [v])) []
   = (HASHMAP_ERR, [Ptr 1, Ptr 3])"
  using iterate_visits_live_entries
    [of "\<lparr>map_buckets =
             [\<lparr>bucket_key = Ptr ''a'', bucket_value = Ptr (1::nat), bucket_in_use = True\<rparr>,
              \<lparr>bucket_key = Ptr ''b'', bucket_value = Ptr 2, bucket_in_use = False\<rparr>,
              \<lparr>bucket_key = Ptr ''c'', bucket_value = Ptr 3, bucket_in_use = True\<rparr>,
              \<lparr>bucket_key = Ptr ''d'', bucket_value = Ptr 4, bucket_in_use = True\<rparr>],
           map_keys = NULL, map_compare = hashmap_key_compare_str,
           map_hash = hashmap_key_hash_str, map_max_size = 4, map_cur_size = 3,
           map_changed = True\<rparr>"
        "\<lambda>seen v. (if v = Ptr 3 then HASHMAP_ERR else HASHMAP_OK, seen @ [v])" "[]"]
  by (simp add: live_values_def)

text \<open>
  Claim C10. On a table whose live-entry count is zero both iteration entry points
  return \<^verbatim>\<open>HASHMAP_OK\<close> and hand the caller's data back untouched, for every callback:
  the callback is not run. \<^verbatim>\<open>hashmap_get\<close>, \<^verbatim>\<open>hashmap_remove\<close> and \<^verbatim>\<open>hashmap_keys\<close>
  return \<^verbatim>\<open>HASHMAP_EMPTY\<close> on the same table, a different code.
\<close>

theorem iterate_empty_table:
  assumes "map_cur_size m = 0"
  shows "hashmap_iterate (Ptr m) fn data = (HASHMAP_OK, data)
       \<and> hashmap_iterate_check_ok_status (Ptr m) fn data = (HASHMAP_OK, data)
       \<and> hashmap_get (Ptr m) key = Returns (HASHMAP_EMPTY, None)
       \<and> hashmap_remove (Ptr m) key has_value = Returns (HASHMAP_EMPTY, Ptr m, None)
       \<and> fst (hashmap_keys realloc_ok (Ptr m)) = HASHMAP_EMPTY
       \<and> HASHMAP_OK \<noteq> HASHMAP_EMPTY"
  using assms
  by (simp add: hashmap_iterate_def hashmap_iterate_check_ok_status_def
      hashmap_iterate_impl_def hashmap_get_def hashmap_remove_def hashmap_find_def
      hashmap_keys_def)

theorem iterate_empty_table_witness:
  "hashmap_iterate (hashmap_new True (\<lambda>n. True) 4 NULL NULL :: (string, nat) hashmap_map ptr)
     (\<lambda>calls v. (HASHMAP_ERR, Suc calls)) (0::nat) = (HASHMAP_OK, 0)
   \<and> hashmap_iterate_check_ok_status
       (hashmap_new True (\<lambda>n. True) 4 NULL NULL :: (string, nat) hashmap_map ptr)
       (\<lambda>calls v. (HASHMAP_ERR, Suc calls)) (0::nat) = (HASHMAP_OK, 0)
   \<and> fst (hashmap_keys (\<lambda>n. True)
       (hashmap_new True (\<lambda>n. True) 4 NULL NULL :: (string, nat) hashmap_map ptr))
     = HASHMAP_EMPTY"
  using iterate_empty_table
    [of "new_map 4 hashmap_key_compare_str hashmap_key_hash_str :: (string, nat) hashmap_map"
        "\<lambda>calls v. (HASHMAP_ERR, Suc calls)" "0::nat" "Ptr ''a''" True "\<lambda>n. True"]
  by (simp add: hashmap_new_eq strategy_def)

section \<open>Probing, placement and growth\<close>

lemma hash_seek_range:
  "c < map_max_size m \<Longrightarrow> hashmap_hash_seek m key c n = Returns r \<Longrightarrow>
   r = HASHMAP_FULL \<or> (0 \<le> r \<and> nat r < map_max_size m)"
proof (induction n arbitrary: c)
  case 0
  then show ?case by simp
next
  case (Suc n)
  have "(c + 1) mod map_max_size m < map_max_size m" using Suc.prems by simp
  from Suc.IH [OF this] Suc.prems show ?case
    by (auto split: if_splits outcome.splits)
qed

lemma hash_seek_stops:
  "hashmap_hash_seek m key c n = Returns (int i) \<Longrightarrow>
   \<not> bucket_in_use (map_buckets m ! i)
   \<or> map_compare m (bucket_key (map_buckets m ! i)) key = Returns 0"
  by (induction n arbitrary: c) (auto split: if_splits outcome.splits)

lemma hash_seek_full_in_use:
  "c < map_max_size m \<Longrightarrow> hashmap_hash_seek m key c n = Returns HASHMAP_FULL \<Longrightarrow> t < n \<Longrightarrow>
   bucket_in_use (map_buckets m ! ((c + t) mod map_max_size m))"
proof (induction n arbitrary: c t)
  case 0
  then show ?case by simp
next
  case (Suc n)
  show ?case
  proof (cases t)
    case 0
    with Suc.prems show ?thesis by (auto split: if_splits outcome.splits)
  next
    case (Suc t')
    have "bucket_in_use (map_buckets m ! (((c + 1) mod map_max_size m + t') mod map_max_size m))"
      using Suc.prems Suc by (intro Suc.IH) (auto split: if_splits outcome.splits)
    then show ?thesis using Suc by (simp add: mod_add_left_eq)
  qed
qed

lemma probe_covers:
  fixes c i n :: nat
  assumes "c < n" "i < n"
  shows "\<exists>t<n. (c + t) mod n = i"
proof (cases "c \<le> i")
  case True
  then have "(c + (i - c)) mod n = i" using assms by simp
  moreover have "i - c < n" using assms by simp
  ultimately show ?thesis by blast
next
  case False
  then have "(c + (i + n - c)) mod n = i" using assms by simp
  moreover have "i + n - c < n" using False assms by simp
  ultimately show ?thesis by blast
qed

lemma hash_seek_full_all_in_use:
  assumes "c < map_max_size m"
    "hashmap_hash_seek m key c (map_max_size m) = Returns HASHMAP_FULL"
    "i < map_max_size m"
  shows "bucket_in_use (map_buckets m ! i)"
proof -
  obtain t where "t < map_max_size m" "(c + t) mod map_max_size m = i"
    using probe_covers [OF assms(1,3)] by blast
  then show ?thesis using hash_seek_full_in_use [OF assms(1,2)] by auto
qed

lemma filter_all_length: "(\<forall>i<length xs. P (xs ! i)) \<Longrightarrow> length (filter P xs) = length xs"
  by (simp add: all_set_conv_all_nth)

lemma hashmap_hash_eq:
  "hashmap_hash (Ptr m) key =
     (if map_cur_size m = map_max_size m then Returns HASHMAP_FULL else probe m key)"
  by (simp add: hashmap_hash_def probe_def)

lemma hashmap_find_eq:
  "hashmap_find (Ptr m) key =
     (if map_cur_size m = 0 then Returns HASHMAP_EMPTY else scan m key)"
  by (simp add: hashmap_find_def scan_def)

lemma probe_range:
  assumes "table_ok m" "probe m key = Returns r"
  shows "r = HASHMAP_FULL \<or> (0 \<le> r \<and> nat r < map_max_size m)"
proof -
  obtain h where h: "map_hash m key = Returns h"
    and s: "hashmap_hash_seek m key (unat h mod map_max_size m) (map_max_size m) = Returns r"
    using assms(2) by (cases "map_hash m key") (auto simp: probe_def)
  have "unat h mod map_max_size m < map_max_size m" using assms(1) by (simp add: table_ok_def)
  from hash_seek_range [OF this s] show ?thesis .
qed

lemma probe_not_full:
  assumes "table_ok m" "in_use_count m < map_max_size m"
  shows "probe m key \<noteq> Returns HASHMAP_FULL"
proof
  assume full: "probe m key = Returns HASHMAP_FULL"
  obtain h :: "32 word" where
    s: "hashmap_hash_seek m key (unat h mod map_max_size m) (map_max_size m)
          = Returns HASHMAP_FULL"
    using full by (cases "map_hash m key") (auto simp: probe_def)
  have lt: "unat h mod map_max_size m < map_max_size m"
    using assms(1) by (simp add: table_ok_def)
  have "\<forall>i<length (map_buckets m). bucket_in_use (map_buckets m ! i)"
    using hash_seek_full_all_in_use [OF lt s] assms(1) by (simp add: table_ok_def)
  then have "in_use_count m = map_max_size m"
    using assms(1) by (simp add: in_use_count_def filter_all_length table_ok_def)
  then show False using assms(2) by simp
qed

lemma hashmap_hash_not_full:
  assumes "table_ok m" "in_use_count m \<le> map_cur_size m" "map_cur_size m < map_max_size m"
  shows "hashmap_hash (Ptr m) key \<noteq> Returns HASHMAP_FULL"
  using probe_not_full [OF assms(1), of key] assms(2,3) by (simp add: hashmap_hash_eq)

text \<open>An index that \<^verbatim>\<open>hashmap_hash\<close> returns is the end of the probe, below the capacity.\<close>

lemma hashmap_hash_index:
  assumes "table_ok m" "hashmap_hash (Ptr m) key = Returns index" "index \<noteq> HASHMAP_FULL"
  shows "probe m key = Returns index" and "0 \<le> index" and "nat index < map_max_size m"
    and "nat index < length (map_buckets m)"
proof -
  show p: "probe m key = Returns index"
    using assms(2,3) by (simp add: hashmap_hash_eq split: if_splits)
  show "0 \<le> index" "nat index < map_max_size m"
    using probe_range [OF assms(1) p] assms(3) by auto
  then show "nat index < length (map_buckets m)" using assms(1) by (simp add: table_ok_def)
qed

declare hashmap_put.simps [simp del]

lemma put_undefined:
  "hashmap_hash (Ptr m) key = Undefined \<Longrightarrow>
   hashmap_put fuel calloc (Ptr m) key val = Some Undefined"
  by (simp add: hashmap_put.simps)

lemma put_not_full:
  "hashmap_hash (Ptr m) key = Returns index \<Longrightarrow> index \<noteq> HASHMAP_FULL \<Longrightarrow>
   hashmap_put fuel calloc (Ptr m) key val
     = Some (Returns (HASHMAP_OK, Ptr (fill_bucket (nat index) key val m)))"
  by (simp add: hashmap_put.simps)

lemma rehash_alloc_fails:
  "\<not> calloc (2 * map_max_size m) \<Longrightarrow>
   hashmap_rehash fuel calloc (Ptr m) = Some (Returns (HASHMAP_ERR, Ptr m))"
  by (simp add: hashmap_put.simps)

lemma put_alloc_fails:
  "hashmap_hash (Ptr m) key = Returns HASHMAP_FULL \<Longrightarrow> \<not> calloc (2 * map_max_size m) \<Longrightarrow>
   hashmap_put (Suc fuel) calloc (Ptr m) key val = Some (Returns (HASHMAP_FULL, Ptr m))"
  by (simp add: hashmap_put.simps)

lemma fill_bucket_simps [simp]:
  "map_buckets (fill_bucket i key val m) =
     (map_buckets m)[i := \<lparr>bucket_key = key, bucket_value = val, bucket_in_use = True\<rparr>]"
  "map_keys (fill_bucket i key val m) = map_keys m"
  "map_compare (fill_bucket i key val m) = map_compare m"
  "map_hash (fill_bucket i key val m) = map_hash m"
  "map_max_size (fill_bucket i key val m) = map_max_size m"
  "map_cur_size (fill_bucket i key val m) = map_cur_size m + 1"
  "map_changed (fill_bucket i key val m) = True"
  by (simp_all add: fill_bucket_def)

lemma grow_simps [simp]:
  "map_buckets (grow m) = replicate (2 * map_max_size m) zero_bucket"
  "map_keys (grow m) = map_keys m"
  "map_compare (grow m) = map_compare m"
  "map_hash (grow m) = map_hash m"
  "map_max_size (grow m) = 2 * map_max_size m"
  "map_cur_size (grow m) = 0"
  "map_changed (grow m) = map_changed m"
  by (simp_all add: grow_def)

lemma place_Returns:
  assumes "place key val m = Returns m'"
  obtains index where "hashmap_hash (Ptr m) key = Returns index"
    and "m' = fill_bucket (nat index) key val m"
  using assms by (auto simp: place_def split: outcome.splits)

lemma place_fields:
  assumes "place key val m = Returns m'"
  shows "map_keys m' = map_keys m" "map_compare m' = map_compare m" "map_hash m' = map_hash m"
    "map_max_size m' = map_max_size m" "map_cur_size m' = map_cur_size m + 1"
    "map_changed m' = True"
  using assms by (auto elim!: place_Returns)

lemma filter_update_length:
  "i < length xs \<Longrightarrow>
   length (filter P (xs[i := x])) + (if P (xs ! i) then 1 else 0) =
   length (filter P xs) + (if P x then 1 else 0)"
proof (induction xs arbitrary: i)
  case Nil
  then show ?case by simp
next
  case (Cons y ys)
  then show ?case by (cases i) auto
qed

lemma in_use_count_fill:
  "i < length (map_buckets m) \<Longrightarrow>
   in_use_count (fill_bucket i key val m) =
     (if bucket_in_use (map_buckets m ! i) then in_use_count m else in_use_count m + 1)"
  using filter_update_length [of i "map_buckets m" bucket_in_use
      "\<lparr>bucket_key = key, bucket_value = val, bucket_in_use = True\<rparr>"]
  by (simp add: in_use_count_def split: if_splits)

lemma sound_fill:
  assumes "sound m" "hashmap_hash (Ptr m) key = Returns index" "index \<noteq> HASHMAP_FULL"
  shows "sound (fill_bucket (nat index) key val m)"
proof -
  have ok: "table_ok m" and cnt: "in_use_count m \<le> map_cur_size m"
    using assms(1) by (simp_all add: sound_def)
  have "in_use_count (fill_bucket (nat index) key val m) \<le> in_use_count m + 1"
    using hashmap_hash_index(4) [OF ok assms(2,3)] by (simp add: in_use_count_fill)
  moreover have "table_ok (fill_bucket (nat index) key val m)"
    using ok by (simp add: table_ok_def)
  ultimately show ?thesis using cnt by (simp add: sound_def)
qed

lemma sound_place:
  assumes "sound m" "hashmap_hash (Ptr m) key \<noteq> Returns HASHMAP_FULL"
    "place key val m = Returns m'"
  shows "sound m'"
  using assms sound_fill [of m key _ val] by (auto elim!: place_Returns)

lemma put_place:
  assumes "hashmap_hash (Ptr m) key \<noteq> Returns HASHMAP_FULL"
  shows "hashmap_put fuel calloc (Ptr m) key val
           = Some (map_outcome (\<lambda>m'. (HASHMAP_OK, Ptr m')) (place key val m))"
proof (cases "hashmap_hash (Ptr m) key")
  case Undefined
  then show ?thesis by (simp add: put_undefined place_def)
next
  case (Returns index)
  then show ?thesis using assms by (simp add: put_not_full place_def)
qed

lemma rehash_loop_reinsert:
  assumes "sound m" "map_cur_size m + length (filter bucket_in_use bs) \<le> map_max_size m"
  shows "hashmap_rehash_loop fuel calloc (Ptr m) bs
           = Some (map_outcome (\<lambda>m'. (HASHMAP_OK, Ptr m')) (reinsert m bs))"
    and "reinsert m bs = Returns m2 \<Longrightarrow>
           sound m2 \<and> map_cur_size m2 = map_cur_size m + length (filter bucket_in_use bs)
           \<and> map_max_size m2 = map_max_size m \<and> map_compare m2 = map_compare m
           \<and> map_hash m2 = map_hash m \<and> map_keys m2 = map_keys m"
  using assms
proof (induction bs arbitrary: m)
  case Nil
  {
    case 1
    then show ?case by (simp add: hashmap_put.simps)
  next
    case 2
    then show ?case by simp
  }
next
  case (Cons b bs)
  {
    case 1
    show ?case
    proof (cases "bucket_in_use b")
      case False
      then show ?thesis using Cons.IH(1) [of m] 1 by (simp add: hashmap_put.simps)
    next
      case True
      have lt: "map_cur_size m < map_max_size m" using 1 True by simp
      have nf: "hashmap_hash (Ptr m) (bucket_key b) \<noteq> Returns HASHMAP_FULL"
        using hashmap_hash_not_full 1(1) lt by (auto simp: sound_def)
      note put = put_place [OF nf, of fuel calloc "bucket_value b"]
      show ?thesis
      proof (cases "place (bucket_key b) (bucket_value b) m")
        case Undefined
        then show ?thesis using put True by (simp add: hashmap_put.simps)
      next
        case (Returns m')
        have s': "sound m'" using 1(1) nf Returns by (rule sound_place)
        have "map_cur_size m' + length (filter bucket_in_use bs) \<le> map_max_size m'"
          using 1(2) True place_fields [OF Returns] by simp
        from Cons.IH(1) [OF s' this] put True Returns show ?thesis
          by (simp add: hashmap_put.simps)
      qed
    qed
  next
    case 2
    show ?case
    proof (cases "bucket_in_use b")
      case False
      then show ?thesis using Cons.IH(2) [of m] 2 by simp
    next
      case True
      have lt: "map_cur_size m < map_max_size m" using 2 True by simp
      have nf: "hashmap_hash (Ptr m) (bucket_key b) \<noteq> Returns HASHMAP_FULL"
        using hashmap_hash_not_full 2(2) lt by (auto simp: sound_def)
      obtain m' where m': "place (bucket_key b) (bucket_value b) m = Returns m'"
        "reinsert m' bs = Returns m2"
        using 2(1) True by (auto split: outcome.splits)
      have s': "sound m'" using 2(2) nf m'(1) by (rule sound_place)
      have "map_cur_size m' + length (filter bucket_in_use bs) \<le> map_max_size m'"
        using 2(3) True place_fields [OF m'(1)] by simp
      from Cons.IH(2) [OF m'(2) s' this] True place_fields [OF m'(1)] show ?thesis by simp
    qed
  }
qed

lemma sound_grow: "table_ok m \<Longrightarrow> sound (grow m)"
  by (simp add: sound_def table_ok_def in_use_count_def zero_bucket_def)

lemma in_use_count_le: "table_ok m \<Longrightarrow> in_use_count m \<le> map_max_size m"
  unfolding in_use_count_def table_ok_def
  by (metis length_filter_le)

lemma grow_room:
  "table_ok m \<Longrightarrow>
   map_cur_size (grow m) + length (filter bucket_in_use (map_buckets m)) \<le> map_max_size (grow m)"
  using in_use_count_le [of m] by (simp add: in_use_count_def)

lemma rehash_reinsert:
  assumes "table_ok m" "calloc (2 * map_max_size m)"
  shows "hashmap_rehash fuel calloc (Ptr m)
           = Some (map_outcome (\<lambda>m'. (HASHMAP_OK, Ptr m')) (reinsert (grow m) (map_buckets m)))"
  using rehash_loop_reinsert(1) [OF sound_grow [OF assms(1)] grow_room [OF assms(1)],
      of fuel calloc] assms(2)
  by (simp add: hashmap_put.simps grow_def mult.commute)

lemma rebuilt_sound:
  assumes "table_ok m" "reinsert (grow m) (map_buckets m) = Returns m2"
  shows "sound m2" "map_cur_size m2 = in_use_count m" "map_max_size m2 = 2 * map_max_size m"
    "map_compare m2 = map_compare m" "map_hash m2 = map_hash m" "map_keys m2 = map_keys m"
    "map_cur_size m2 < map_max_size m2"
    "hashmap_hash (Ptr m2) key \<noteq> Returns HASHMAP_FULL"
proof -
  note r = rehash_loop_reinsert(2)
    [OF sound_grow [OF assms(1)] grow_room [OF assms(1)] assms(2)]
  show s: "sound m2" and c: "map_cur_size m2 = in_use_count m"
    and "map_max_size m2 = 2 * map_max_size m"
    and "map_compare m2 = map_compare m" "map_hash m2 = map_hash m" "map_keys m2 = map_keys m"
    using r by (simp_all add: in_use_count_def)
  show lt: "map_cur_size m2 < map_max_size m2"
    using r in_use_count_le [OF assms(1)] assms(1) by (simp add: in_use_count_def table_ok_def)
  show "hashmap_hash (Ptr m2) key \<noteq> Returns HASHMAP_FULL"
    using s lt hashmap_hash_not_full [of m2 key] by (simp add: sound_def)
qed

lemma put_eq:
  assumes "table_ok m"
  shows "hashmap_put (Suc fuel) calloc (Ptr m) key val = Some (put_result calloc m key val)"
proof (cases "hashmap_hash (Ptr m) key")
  case Undefined
  then show ?thesis by (simp add: put_result_def put_undefined)
next
  case (Returns index)
  show ?thesis
  proof (cases "index = HASHMAP_FULL")
    case False
    then show ?thesis using Returns by (simp add: put_result_def put_not_full)
  next
    case full: True
    show ?thesis
    proof (cases "calloc (2 * map_max_size m)")
      case False
      then show ?thesis using Returns full by (simp add: put_result_def put_alloc_fails)
    next
      case True
      note rh = rehash_reinsert [where calloc = calloc and fuel = fuel, OF assms True]
      show ?thesis
      proof (cases "reinsert (grow m) (map_buckets m)")
        case Undefined
        then show ?thesis using Returns full True rh
          by (simp add: put_result_def hashmap_put.simps)
      next
        case m2: (Returns m2)
        have nf: "hashmap_hash (Ptr m2) key \<noteq> Returns HASHMAP_FULL"
          using rebuilt_sound(8) [OF assms m2] .
        have "hashmap_put (Suc fuel) calloc (Ptr m) key val
                = hashmap_put fuel calloc (Ptr m2) key val"
          using Returns full rh m2 by (simp add: hashmap_put.simps)
        also have "\<dots> = Some (map_outcome (\<lambda>m'. (HASHMAP_OK, Ptr m')) (place key val m2))"
          using nf by (rule put_place)
        finally show ?thesis using Returns full True m2
          by (auto simp: put_result_def split: outcome.splits)
      qed
    qed
  qed
qed

section \<open>Lookup after insertion\<close>

lemma hash_seek_unfold:
  "0 < n \<Longrightarrow> hashmap_hash_seek m key c n =
     (if \<not> bucket_in_use (map_buckets m ! c) then Returns (int c)
      else
        (case map_compare m (bucket_key (map_buckets m ! c)) key of
           Undefined \<Rightarrow> Undefined
         | Returns r \<Rightarrow>
             if r = 0 then Returns (int c)
             else hashmap_hash_seek m key ((c + 1) mod map_max_size m) (n - 1)))"
  by (cases n) (auto split: outcome.splits)

lemma find_seek_unfold:
  "0 < n \<Longrightarrow> hashmap_find_seek m key c n =
     (case map_compare m (bucket_key (map_buckets m ! c)) key of
        Undefined \<Rightarrow> Undefined
      | Returns r \<Rightarrow>
          if r = 0 \<and> bucket_in_use (map_buckets m ! c) then Returns (int c)
          else hashmap_find_seek m key ((c + 1) mod map_max_size m) (n - 1))"
  by (cases n) (auto split: outcome.splits)

lemma find_seek_range:
  "c < map_max_size m \<Longrightarrow> hashmap_find_seek m key c n = Returns r \<Longrightarrow>
   r = HASHMAP_NOT_FOUND
   \<or> (0 \<le> r \<and> nat r < map_max_size m \<and> bucket_in_use (map_buckets m ! nat r)
      \<and> map_compare m (bucket_key (map_buckets m ! nat r)) key = Returns 0)"
proof (induction n arbitrary: c)
  case 0
  then show ?case by simp
next
  case (Suc n)
  have "(c + 1) mod map_max_size m < map_max_size m" using Suc.prems by simp
  from Suc.IH [OF this] Suc.prems show ?case
    by (auto split: if_splits outcome.splits)
qed


lemma find_after_fill:
  "hashmap_hash_seek m key c n = Returns (int i) \<Longrightarrow> i < length (map_buckets m) \<Longrightarrow>
   map_compare m key key = Returns 0 \<Longrightarrow>
   hashmap_find_seek (fill_bucket i key val m) key c n = Returns (int i)"
proof (induction n arbitrary: c)
  case 0
  then show ?case by simp
next
  case (Suc n)
  show ?case
  proof (cases "\<not> bucket_in_use (map_buckets m ! c)
                \<or> map_compare m (bucket_key (map_buckets m ! c)) key = Returns 0")
    case True
    then have "i = c" using Suc.prems(1) by (auto split: if_splits outcome.splits)
    then show ?thesis using Suc.prems by simp
  next
    case False
    then obtain r where r: "map_compare m (bucket_key (map_buckets m ! c)) key = Returns r"
        "r \<noteq> 0"
      and rec: "hashmap_hash_seek m key ((c + 1) mod map_max_size m) n = Returns (int i)"
      using Suc.prems(1) by (auto split: if_splits outcome.splits)
    have "i \<noteq> c" using hash_seek_stops [OF rec] False by auto
    then show ?thesis using Suc.IH [OF rec Suc.prems(2,3)] r by simp
  qed
qed

lemma get_after_fill:
  assumes "table_ok m" "map_compare m key key = Returns 0"
    "hashmap_hash (Ptr m) key = Returns index" "index \<noteq> HASHMAP_FULL"
  shows "hashmap_get (Ptr (fill_bucket (nat index) key val m)) key
           = Returns (HASHMAP_OK, Some val)"
proof -
  note ix = hashmap_hash_index [OF assms(1,3,4)]
  obtain h where h: "map_hash m key = Returns h"
    and s: "hashmap_hash_seek m key (unat h mod map_max_size m) (map_max_size m)
              = Returns (int (nat index))"
    using ix(1,2) by (cases "map_hash m key") (auto simp: probe_def)
  from find_after_fill [OF s ix(4) assms(2), of val]
  have "hashmap_find (Ptr (fill_bucket (nat index) key val m)) key = Returns (int (nat index))"
    using h by (simp add: hashmap_find_eq scan_def)
  then show ?thesis using ix by (simp add: hashmap_get_def)
qed

lemma get_after_place:
  assumes "table_ok m" "map_compare m key key = Returns 0"
    "hashmap_hash (Ptr m) key \<noteq> Returns HASHMAP_FULL" "place key val m = Returns m'"
  shows "hashmap_get (Ptr m') key = Returns (HASHMAP_OK, Some val)"
  using assms get_after_fill [of m key _ val] by (auto elim!: place_Returns)

lemma keys_in_fill:
  "keys_in D m \<Longrightarrow> key \<in> D \<Longrightarrow> i < length (map_buckets m) \<Longrightarrow>
   keys_in D (fill_bucket i key val m)"
  by (auto simp: keys_in_def nth_list_update)

lemma hash_seek_defined:
  assumes "keys_in D m" "key \<in> D" "\<forall>a\<in>D. \<forall>b\<in>D. map_compare m a b \<noteq> Undefined"
  shows "c < map_max_size m \<Longrightarrow> hashmap_hash_seek m key c n \<noteq> Undefined"
proof (induction n arbitrary: c)
  case 0
  then show ?case by simp
next
  case (Suc n)
  have lt: "(c + 1) mod map_max_size m < map_max_size m" using Suc.prems by simp
  show ?case
  proof (cases "bucket_in_use (map_buckets m ! c)")
    case False
    then show ?thesis by simp
  next
    case True
    then have "bucket_key (map_buckets m ! c) \<in> D"
      using assms(1) Suc.prems by (simp add: keys_in_def)
    then have "map_compare m (bucket_key (map_buckets m ! c)) key \<noteq> Undefined"
      using assms(2,3) by blast
    then show ?thesis using Suc.IH [OF lt] True by (auto split: outcome.splits)
  qed
qed

lemma hashmap_hash_defined:
  assumes "table_ok m" "keys_in D m" "key \<in> D"
    "defined_on D (map_compare m) (map_hash m)"
  shows "hashmap_hash (Ptr m) key \<noteq> Undefined"
proof -
  obtain h where h: "map_hash m key = Returns h"
    using assms(3,4) by (cases "map_hash m key") (auto simp: defined_on_def)
  have "unat h mod map_max_size m < map_max_size m"
    using assms(1) by (simp add: table_ok_def)
  moreover have "\<forall>a\<in>D. \<forall>b\<in>D. map_compare m a b \<noteq> Undefined"
    using assms(4) by (simp add: defined_on_def)
  ultimately show ?thesis
    using hash_seek_defined [OF assms(2,3)] h by (simp add: hashmap_hash_eq probe_def)
qed

lemma place_defined:
  assumes "sound m" "hashmap_hash (Ptr m) key \<noteq> Returns HASHMAP_FULL" "keys_in D m" "key \<in> D"
    "defined_on D (map_compare m) (map_hash m)"
  obtains m' where "place key val m = Returns m'" "keys_in D m'" "sound m'"
proof -
  have ok: "table_ok m" using assms(1) by (simp add: sound_def)
  obtain index where ix: "hashmap_hash (Ptr m) key = Returns index"
    using hashmap_hash_defined [OF ok assms(3,4,5)] by (cases "hashmap_hash (Ptr m) key") auto
  then have ne: "index \<noteq> HASHMAP_FULL" using assms(2) by auto
  have "place key val m = Returns (fill_bucket (nat index) key val m)"
    using ix by (simp add: place_def)
  moreover have "keys_in D (fill_bucket (nat index) key val m)"
    using assms(3,4) hashmap_hash_index(4) [OF ok ix ne] by (rule keys_in_fill)
  moreover have "sound (fill_bucket (nat index) key val m)"
    using assms(1) ix ne by (rule sound_fill)
  ultimately show ?thesis using that by blast
qed

lemma reinsert_defined:
  assumes "defined_on D cmp hsh"
  shows "sound m \<Longrightarrow> map_cur_size m + length (filter bucket_in_use bs) \<le> map_max_size m \<Longrightarrow>
    keys_in D m \<Longrightarrow> map_compare m = cmp \<Longrightarrow> map_hash m = hsh \<Longrightarrow>
    \<forall>b\<in>set bs. bucket_in_use b \<longrightarrow> bucket_key b \<in> D \<Longrightarrow>
    \<exists>m2. reinsert m bs = Returns m2 \<and> keys_in D m2"
proof (induction bs arbitrary: m)
  case Nil
  then show ?case by simp
next
  case (Cons b bs)
  show ?case
  proof (cases "bucket_in_use b")
    case False
    then show ?thesis using Cons by simp
  next
    case True
    have lt: "map_cur_size m < map_max_size m" using Cons.prems(2) True by simp
    have nf: "hashmap_hash (Ptr m) (bucket_key b) \<noteq> Returns HASHMAP_FULL"
      using hashmap_hash_not_full Cons.prems(1) lt by (auto simp: sound_def)
    have kD: "bucket_key b \<in> D" using Cons.prems(6) True by simp
    have def: "defined_on D (map_compare m) (map_hash m)"
      using assms Cons.prems(4,5) by simp
    obtain m' where m': "place (bucket_key b) (bucket_value b) m = Returns m'"
        "keys_in D m'" "sound m'"
      using place_defined [OF Cons.prems(1) nf Cons.prems(3) kD def] by blast
    have "map_cur_size m' + length (filter bucket_in_use bs) \<le> map_max_size m'"
      using Cons.prems(2) True place_fields [OF m'(1)] by simp
    moreover have "map_compare m' = cmp" "map_hash m' = hsh"
      using place_fields [OF m'(1)] Cons.prems(4,5) by simp_all
    ultimately have "\<exists>m2. reinsert m' bs = Returns m2 \<and> keys_in D m2"
      using Cons.IH [OF m'(3) _ m'(2)] Cons.prems(6) by simp
    then show ?thesis using True m'(1) by simp
  qed
qed

lemma keys_in_buckets:
  "table_ok m \<Longrightarrow> keys_in D m \<Longrightarrow>
   \<forall>b\<in>set (map_buckets m). bucket_in_use b \<longrightarrow> bucket_key b \<in> D"
  by (auto simp: keys_in_def table_ok_def in_set_conv_nth)

lemma keys_in_grow: "keys_in D (grow m)"
  by (simp add: keys_in_def)

text \<open>
  \<^verbatim>\<open>hashmap_put\<close> is defined when both strategies are defined on a set of keys that holds
  the key put and the keys of the occupied buckets.
\<close>

lemma put_result_defined:
  assumes "table_ok m" "keys_in D m" "key \<in> D" "defined_on D (map_compare m) (map_hash m)"
  shows "put_result calloc m key val \<noteq> Undefined"
proof -
  obtain index where ix: "hashmap_hash (Ptr m) key = Returns index"
    using hashmap_hash_defined [OF assms] by (cases "hashmap_hash (Ptr m) key") auto
  show ?thesis
  proof (cases "index \<noteq> HASHMAP_FULL \<or> \<not> calloc (2 * map_max_size m)")
    case True
    then show ?thesis using ix by (auto simp: put_result_def)
  next
    case False
    obtain m2 where m2: "reinsert (grow m) (map_buckets m) = Returns m2" "keys_in D m2"
      using reinsert_defined [OF assms(4) sound_grow [OF assms(1)] grow_room [OF assms(1)]
          keys_in_grow _ _ keys_in_buckets [OF assms(1,2)]]
      by auto
    note rb = rebuilt_sound [OF assms(1) m2(1)]
    have "defined_on D (map_compare m2) (map_hash m2)" using assms(4) rb(4,5) by simp
    then obtain m' where "place key val m2 = Returns m'"
      using place_defined [OF rb(1) rb(8) m2(2) assms(3)] by blast
    then show ?thesis using ix False m2(1) by (simp add: put_result_def)
  qed
qed

text \<open>
  Claim C5. On a well-formed table whose comparator finds a key equal to itself,
  \<^verbatim>\<open>hashmap_put\<close> comes to an end with one unit of fuel, and when it returns
  \<^verbatim>\<open>HASHMAP_OK\<close> an immediate \<^verbatim>\<open>hashmap_get\<close> of the same key returns \<^verbatim>\<open>HASHMAP_OK\<close> and
  writes the value reference that was put. The put does return when both strategies are
  defined on a set of keys that holds this key and those of the occupied buckets.
\<close>

theorem put_then_get:
  assumes "table_ok m" and "map_compare m key key = Returns 0"
  shows "\<exists>r. hashmap_put (Suc fuel) calloc (Ptr m) key val = Some r
          \<and> (\<forall>mp'. r = Returns (HASHMAP_OK, mp')
                \<longrightarrow> hashmap_get mp' key = Returns (HASHMAP_OK, Some val))
          \<and> (defined_on D (map_compare m) (map_hash m) \<and> keys_in D m \<and> key \<in> D
                \<longrightarrow> r \<noteq> Undefined)"
proof -
  have "hashmap_get mp' key = Returns (HASHMAP_OK, Some val)"
    if res: "put_result calloc m key val = Returns (HASHMAP_OK, mp')" for mp'
  proof -
    obtain index where ix: "hashmap_hash (Ptr m) key = Returns index"
      using res by (cases "hashmap_hash (Ptr m) key") (auto simp: put_result_def)
    show ?thesis
    proof (cases "index = HASHMAP_FULL")
      case False
      then show ?thesis
        using res ix get_after_fill [OF assms ix False, of val] by (simp add: put_result_def)
    next
      case True
      then obtain m2 m' where m2: "reinsert (grow m) (map_buckets m) = Returns m2"
        and m': "place key val m2 = Returns m'" and mp': "mp' = Ptr m'"
        using res ix by (auto simp: put_result_def split: if_splits outcome.splits)
      note rb = rebuilt_sound [OF assms(1) m2]
      have "table_ok m2" using rb(1) by (simp add: sound_def)
      moreover have "map_compare m2 key key = Returns 0" using assms(2) rb(4) by simp
      ultimately show ?thesis using rb(8) m' unfolding mp' by (rule get_after_place)
    qed
  qed
  moreover have "put_result calloc m key val \<noteq> Undefined"
    if "defined_on D (map_compare m) (map_hash m) \<and> keys_in D m \<and> key \<in> D"
    using that put_result_defined [OF assms(1)] by blast
  ultimately show ?thesis by (simp add: put_eq [OF assms(1)])
qed

text \<open>
  Claim C4, as amended. When \<^verbatim>\<open>hashmap_hash\<close> reports the table full and the new bucket
  array cannot be allocated, \<^verbatim>\<open>hashmap_rehash\<close> returns \<^verbatim>\<open>HASHMAP_ERR\<close>, and
  \<^verbatim>\<open>hashmap_put\<close> returns \<^verbatim>\<open>HASHMAP_FULL\<close> (not the code of the rehash) and leaves the
  table exactly as it was.
\<close>

theorem put_rehash_alloc_failure:
  assumes "hashmap_hash (Ptr m) key = Returns HASHMAP_FULL"
    and "\<not> calloc (2 * map_max_size m)"
  shows "hashmap_rehash fuel calloc (Ptr m) = Some (Returns (HASHMAP_ERR, Ptr m))
       \<and> hashmap_put (Suc fuel) calloc (Ptr m) key val = Some (Returns (HASHMAP_FULL, Ptr m))"
  using assms by (simp add: rehash_alloc_fails put_alloc_fails)


section \<open>Removal\<close>

lemma clear_bucket_simps [simp]:
  "map_buckets (clear_bucket i m) =
     (map_buckets m)[i := (map_buckets m ! i)\<lparr>bucket_in_use := False\<rparr>]"
  "map_keys (clear_bucket i m) = map_keys m"
  "map_compare (clear_bucket i m) = map_compare m"
  "map_hash (clear_bucket i m) = map_hash m"
  "map_max_size (clear_bucket i m) = map_max_size m"
  "map_cur_size (clear_bucket i m) = map_cur_size m - 1"
  "map_changed (clear_bucket i m) = True"
  by (simp_all add: clear_bucket_def)

text \<open>
  A probe of \<open>n\<close> steps that ends in \<^verbatim>\<open>HASHMAP_NOT_FOUND\<close> has called the comparator on
  each of the \<open>n\<close> buckets from its start, and each call was defined.
\<close>

lemma find_seek_not_found_defined:
  "hashmap_find_seek m key c n = Returns HASHMAP_NOT_FOUND \<Longrightarrow> c < map_max_size m \<Longrightarrow> k < n \<Longrightarrow>
   map_compare m (bucket_key (map_buckets m ! ((c + k) mod map_max_size m))) key \<noteq> Undefined"
proof (induction n arbitrary: c k)
  case 0
  then show ?case by simp
next
  case (Suc n)
  obtain r where r: "map_compare m (bucket_key (map_buckets m ! c)) key = Returns r"
    and rec: "hashmap_find_seek m key ((c + 1) mod map_max_size m) n = Returns HASHMAP_NOT_FOUND"
    using Suc.prems(1) by (auto split: outcome.splits if_splits)
  show ?case
  proof (cases k)
    case 0
    then show ?thesis using r Suc.prems(2) by simp
  next
    case (Suc k')
    have lt: "(c + 1) mod map_max_size m < map_max_size m" using Suc.prems(2) by simp
    have "((c + 1) mod map_max_size m + k') mod map_max_size m = (c + k) mod map_max_size m"
      using Suc by (simp add: mod_add_left_eq)
    then show ?thesis using Suc.IH [OF rec lt, of k'] Suc.prems(3) Suc by simp
  qed
qed

text \<open>
  So a lookup that finds no occupied bucket with an equal key has undefined behaviour as
  soon as the comparator is undefined on the key field of any bucket: \<^verbatim>\<open>hashmap_find\<close>
  calls \<^verbatim>\<open>_compare\<close> before it tests \<^verbatim>\<open>_in_use\<close>. With \<^verbatim>\<open>strcmp\<close> that is every lookup
  miss on a table with a bucket that was never filled, whose key is the null pointer.
\<close>

lemma find_miss_undefined:
  assumes "table_ok m" "map_cur_size m \<noteq> 0" "map_hash m key \<noteq> Undefined"
    and "j < map_max_size m" "map_compare m (bucket_key (map_buckets m ! j)) key = Undefined"
    and "\<forall>i<map_max_size m. \<not> (map_compare m (bucket_key (map_buckets m ! i)) key = Returns 0
                                   \<and> bucket_in_use (map_buckets m ! i))"
  shows "hashmap_find (Ptr m) key = Undefined"
proof (rule ccontr)
  assume "hashmap_find (Ptr m) key \<noteq> Undefined"
  then obtain r where r: "hashmap_find (Ptr m) key = Returns r"
    by (cases "hashmap_find (Ptr m) key") auto
  obtain h where h: "map_hash m key = Returns h"
    using assms(3) by (cases "map_hash m key") auto
  let ?c = "unat h mod map_max_size m"
  have pos: "0 < map_max_size m" using assms(4) by simp
  then have lt: "?c < map_max_size m" by simp
  have seek: "hashmap_find_seek m key ?c (map_max_size m) = Returns r"
    using r h assms(2) by (simp add: hashmap_find_eq scan_def)
  from find_seek_range [OF lt seek] assms(6) have nf: "r = HASHMAP_NOT_FOUND" by auto
  define k where "k = (j + map_max_size m - ?c) mod map_max_size m"
  have "k < map_max_size m" using pos by (simp add: k_def)
  moreover have "(?c + k) mod map_max_size m = j"
  proof -
    have "(?c + k) mod map_max_size m = (?c + (j + map_max_size m - ?c)) mod map_max_size m"
      by (simp add: k_def mod_add_right_eq)
    also have "?c + (j + map_max_size m - ?c) = j + map_max_size m" using lt by simp
    finally show ?thesis using assms(4) by simp
  qed
  ultimately show False
    using find_seek_not_found_defined [OF seek [unfolded nf] lt, of k] assms(5) by simp
qed


section \<open>The operations at concrete inputs\<close>

lemma in_use_count_new_map [simp]: "in_use_count (new_map n cmp hsh) = 0"
  by (simp add: in_use_count_def)

lemmas run_simps =
  hashmap_put.simps hashmap_hash_def hashmap_find_def hashmap_get_def hashmap_remove_def
  hash_seek_unfold find_seek_unfold hashmap_new_eq strategy_def table_ok_def
  calloc_any_def calloc_upto_def

lemmas str_simps =
  strlen_def hash_step_def hash_final_def char_to_u32_def Let_def
  drop_bit_eq_div

lemma of_char_eq_0_iff: "(of_char c :: nat) = 0 \<longleftrightarrow> c = CHR 0x00"
proof -
  have "(of_char c :: nat) = of_char (CHR 0x00) \<longleftrightarrow> c = CHR 0x00"
    by (rule of_char_eq_iff)
  then show ?thesis by simp
qed

lemma strcmp_bytes_eq_0_iff:
  "CHR 0x00 \<notin> set a \<Longrightarrow> CHR 0x00 \<notin> set b \<Longrightarrow> strcmp_bytes a b = 0 \<longleftrightarrow> a = b"
  by (induction a b rule: strcmp_bytes.induct) (auto simp: of_char_eq_0_iff)

lemma c_str_no_nul: "CHR 0x00 \<notin> set (c_str s)"
  by (auto simp: c_str_def dest: set_takeWhileD)

lemma strcmp_eq_0_iff: "strcmp s t = 0 \<longleftrightarrow> c_str s = c_str t"
  by (simp add: strcmp_def strcmp_bytes_eq_0_iff c_str_no_nul)

lemma hash_str_c_str:
  "hashmap_key_hash_str (Ptr s) = Returns (hash_final (foldl hash_step 0 (c_str s)))"
  using takeWhile_eq_take [of "\<lambda>c. c \<noteq> CHR 0x00" s] by (simp add: strlen_def c_str_def)

lemma c_str_literal [simp]: "CHR 0x00 \<notin> set s \<Longrightarrow> c_str s = s"
  by (auto simp: c_str_def)

text \<open>The round trip of claim C5 on a fresh table of 16 buckets with the string strategies.\<close>

theorem put_then_get_witness:
  "hashmap_put 1 calloc_any (hashmap_new True calloc_any 16 NULL NULL) (Ptr ''a'') (Ptr (1::nat))
     = Some (Returns (HASHMAP_OK,
         Ptr (fill_bucket 2 (Ptr ''a'') (Ptr 1)
                (new_map 16 hashmap_key_compare_str hashmap_key_hash_str))))
   \<and> hashmap_get
       (Ptr (fill_bucket 2 (Ptr ''a'') (Ptr (1::nat))
               (new_map 16 hashmap_key_compare_str hashmap_key_hash_str)))
       (Ptr ''a'') = Returns (HASHMAP_OK, Some (Ptr 1))"
proof -
  let ?m = "new_map 16 hashmap_key_compare_str hashmap_key_hash_str :: (string, nat) hashmap_map"
  have ok: "table_ok ?m" by (simp add: table_ok_def)
  have refl: "map_compare ?m (Ptr ''a'') (Ptr ''a'') = Returns 0" by (simp add: strcmp_eq_0_iff)
  have put: "hashmap_put 1 calloc_any (Ptr ?m) (Ptr ''a'') (Ptr 1)
               = Some (Returns (HASHMAP_OK, Ptr (fill_bucket 2 (Ptr ''a'') (Ptr 1) ?m)))"
    by (simp add: run_simps str_simps)
  from put_then_get
    [where fuel = 0 and calloc = calloc_any and val = "Ptr 1" and D = "range Ptr", OF ok refl] put
  show ?thesis by (simp add: hashmap_new_eq strategy_def calloc_any_def strcmp_eq_0_iff)
qed

text \<open>
  Claim C1 at a concrete input. On a fresh table of 16 buckets, putting the key \<open>''a''\<close>
  twice overwrites the value (the lookup returns the second one) and leaves one bucket
  occupied, but \<^verbatim>\<open>_cur_size\<close> is 1 after the first put and 2 after the second:
  \<^verbatim>\<open>hashmap_put\<close> increments the count whether or not the bucket was already in use.
\<close>

theorem put_same_key_twice:
  "hashmap_put 1 calloc_any (hashmap_new True calloc_any 16 NULL NULL) (Ptr ''a'') (Ptr (1::nat))
     = Some (Returns (HASHMAP_OK, Ptr (fill_bucket 2 (Ptr ''a'') (Ptr (1::nat)) (new_map 16 hashmap_key_compare_str hashmap_key_hash_str))))
   \<and> hashmap_put 1 calloc_any (Ptr (fill_bucket 2 (Ptr ''a'') (Ptr (1::nat)) (new_map 16 hashmap_key_compare_str hashmap_key_hash_str))) (Ptr ''a'') (Ptr 2)
     = Some (Returns (HASHMAP_OK, Ptr (fill_bucket 2 (Ptr ''a'') (Ptr 2) (fill_bucket 2 (Ptr ''a'') (Ptr (1::nat)) (new_map 16 hashmap_key_compare_str hashmap_key_hash_str)))))
   \<and> hashmap_get (Ptr (fill_bucket 2 (Ptr ''a'') (Ptr 2) (fill_bucket 2 (Ptr ''a'') (Ptr (1::nat)) (new_map 16 hashmap_key_compare_str hashmap_key_hash_str)))) (Ptr ''a'') = Returns (HASHMAP_OK, Some (Ptr 2))
   \<and> map_cur_size (fill_bucket 2 (Ptr ''a'') (Ptr (1::nat)) (new_map 16 hashmap_key_compare_str hashmap_key_hash_str)) = 1
   \<and> map_cur_size (fill_bucket 2 (Ptr ''a'') (Ptr 2) (fill_bucket 2 (Ptr ''a'') (Ptr (1::nat)) (new_map 16 hashmap_key_compare_str hashmap_key_hash_str))) = 2
   \<and> in_use_count (fill_bucket 2 (Ptr ''a'') (Ptr 2) (fill_bucket 2 (Ptr ''a'') (Ptr (1::nat)) (new_map 16 hashmap_key_compare_str hashmap_key_hash_str))) = 1"
  by (simp add: run_simps str_simps strcmp_eq_0_iff in_use_count_fill)



text \<open>
  On a table of 16 buckets the same steps have no defined result: after the removal of
  \<open>''a''\<close> the lookup goes on from bucket 2 to bucket 3, which was never filled, and calls
  \<^verbatim>\<open>strcmp\<close> on its null key.
\<close>

lemma lookup_miss_undefined:
  "hashmap_put 1 calloc_any (Ptr (fill_bucket 2 (Ptr ''a'') (Ptr (1::nat)) (new_map 16 hashmap_key_compare_str hashmap_key_hash_str))) (Ptr ''b'') (Ptr 2)
     = Some (Returns (HASHMAP_OK, Ptr (fill_bucket 11 (Ptr ''b'') (Ptr 2) (fill_bucket 2 (Ptr ''a'') (Ptr (1::nat)) (new_map 16 hashmap_key_compare_str hashmap_key_hash_str)))))
   \<and> hashmap_remove (Ptr (fill_bucket 11 (Ptr ''b'') (Ptr 2) (fill_bucket 2 (Ptr ''a'') (Ptr (1::nat)) (new_map 16 hashmap_key_compare_str hashmap_key_hash_str)))) (Ptr ''a'') True
     = Returns (HASHMAP_OK, Ptr (clear_bucket 2 (fill_bucket 11 (Ptr ''b'') (Ptr 2) (fill_bucket 2 (Ptr ''a'') (Ptr (1::nat)) (new_map 16 hashmap_key_compare_str hashmap_key_hash_str)))), Some (Ptr 1))
   \<and> hashmap_get (Ptr (clear_bucket 2 (fill_bucket 11 (Ptr ''b'') (Ptr 2) (fill_bucket 2 (Ptr ''a'') (Ptr (1::nat)) (new_map 16 hashmap_key_compare_str hashmap_key_hash_str))))) (Ptr ''a'') = Undefined"
  by (simp add: run_simps str_simps strcmp_eq_0_iff)

text \<open>
  Claim C4 as stated fails on a full table of one bucket when two buckets cannot be
  allocated: the rehash returns \<^verbatim>\<open>HASHMAP_ERR\<close>, the put returns \<^verbatim>\<open>HASHMAP_FULL\<close>.
\<close>

theorem put_rehash_alloc_failure_counterexample:
  "hashmap_put 1 (calloc_upto 1) (hashmap_new True (calloc_upto 1) 1 NULL NULL)
       (Ptr ''a'') (Ptr (1::nat))
     = Some (Returns (HASHMAP_OK, Ptr (fill_bucket 0 (Ptr ''a'') (Ptr (1::nat)) (new_map 1 hashmap_key_compare_str hashmap_key_hash_str))))
   \<and> hashmap_rehash 0 (calloc_upto 1) (Ptr (fill_bucket 0 (Ptr ''a'') (Ptr (1::nat)) (new_map 1 hashmap_key_compare_str hashmap_key_hash_str))) = Some (Returns (HASHMAP_ERR, Ptr (fill_bucket 0 (Ptr ''a'') (Ptr (1::nat)) (new_map 1 hashmap_key_compare_str hashmap_key_hash_str))))
   \<and> hashmap_put 1 (calloc_upto 1) (Ptr (fill_bucket 0 (Ptr ''a'') (Ptr (1::nat)) (new_map 1 hashmap_key_compare_str hashmap_key_hash_str))) (Ptr ''b'') (Ptr 2)
     = Some (Returns (HASHMAP_FULL, Ptr (fill_bucket 0 (Ptr ''a'') (Ptr (1::nat)) (new_map 1 hashmap_key_compare_str hashmap_key_hash_str))))
   \<and> HASHMAP_FULL \<noteq> HASHMAP_ERR"
  by (simp add: run_simps str_simps)

text \<open>The amended claim C4 at the same input.\<close>

theorem put_rehash_alloc_failure_witness:
  "hashmap_rehash 0 (calloc_upto 1) (Ptr (fill_bucket 0 (Ptr ''a'') (Ptr (1::nat)) (new_map 1 hashmap_key_compare_str hashmap_key_hash_str))) = Some (Returns (HASHMAP_ERR, Ptr (fill_bucket 0 (Ptr ''a'') (Ptr (1::nat)) (new_map 1 hashmap_key_compare_str hashmap_key_hash_str))))
   \<and> hashmap_put 1 (calloc_upto 1) (Ptr (fill_bucket 0 (Ptr ''a'') (Ptr (1::nat)) (new_map 1 hashmap_key_compare_str hashmap_key_hash_str))) (Ptr ''b'') (Ptr 2)
     = Some (Returns (HASHMAP_FULL, Ptr (fill_bucket 0 (Ptr ''a'') (Ptr (1::nat)) (new_map 1 hashmap_key_compare_str hashmap_key_hash_str))))"
proof -
  let ?m = "(fill_bucket 0 (Ptr ''a'') (Ptr (1::nat)) (new_map 1 hashmap_key_compare_str hashmap_key_hash_str))"
  have full: "hashmap_hash (Ptr ?m) (Ptr ''b'') = Returns HASHMAP_FULL"
    by (simp add: hashmap_hash_def)
  have no: "\<not> calloc_upto 1 (2 * map_max_size ?m)"
    by (simp add: calloc_upto_def)
  from put_rehash_alloc_failure
    [where calloc = "calloc_upto 1" and fuel = 0 and val = "Ptr 2", OF full no]
  show ?thesis by simp
qed

text \<open>
  Claim C8 at a concrete input, with the string strategies on a table of two buckets:
  put \<open>''b''\<close>, remove it, put \<open>''a''\<close> twice, remove it. Both removals succeed and no
  bucket is occupied any more, but the second put of \<open>''a''\<close> counted the entry again,
  so \<^verbatim>\<open>_cur_size\<close> is 1 and not 0: \<^verbatim>\<open>hashmap_find\<close> goes past its test for the empty
  table, and \<^verbatim>\<open>hashmap_get\<close> and \<^verbatim>\<open>hashmap_remove\<close> return \<^verbatim>\<open>HASHMAP_NOT_FOUND\<close> where
  the claim says \<^verbatim>\<open>HASHMAP_EMPTY\<close>.
\<close>

theorem drained_table_queries:
  "hashmap_put 1 calloc_any (hashmap_new True calloc_any 2 NULL NULL) (Ptr ''b'') (Ptr (7::nat))
     = Some (Returns (HASHMAP_OK, Ptr (fill_bucket 1 (Ptr ''b'') (Ptr (7::nat)) (new_map 2 hashmap_key_compare_str hashmap_key_hash_str))))
   \<and> hashmap_remove (Ptr (fill_bucket 1 (Ptr ''b'') (Ptr (7::nat)) (new_map 2 hashmap_key_compare_str hashmap_key_hash_str))) (Ptr ''b'') True
     = Returns (HASHMAP_OK, Ptr (clear_bucket 1 (fill_bucket 1 (Ptr ''b'') (Ptr (7::nat)) (new_map 2 hashmap_key_compare_str hashmap_key_hash_str))), Some (Ptr 7))
   \<and> hashmap_put 1 calloc_any (Ptr (clear_bucket 1 (fill_bucket 1 (Ptr ''b'') (Ptr (7::nat)) (new_map 2 hashmap_key_compare_str hashmap_key_hash_str)))) (Ptr ''a'') (Ptr 1)
     = Some (Returns (HASHMAP_OK, Ptr (fill_bucket 0 (Ptr ''a'') (Ptr 1) (clear_bucket 1 (fill_bucket 1 (Ptr ''b'') (Ptr (7::nat)) (new_map 2 hashmap_key_compare_str hashmap_key_hash_str))))))
   \<and> hashmap_put 1 calloc_any (Ptr (fill_bucket 0 (Ptr ''a'') (Ptr 1) (clear_bucket 1 (fill_bucket 1 (Ptr ''b'') (Ptr (7::nat)) (new_map 2 hashmap_key_compare_str hashmap_key_hash_str))))) (Ptr ''a'') (Ptr 2)
     = Some (Returns (HASHMAP_OK, Ptr (fill_bucket 0 (Ptr ''a'') (Ptr 2) (fill_bucket 0 (Ptr ''a'') (Ptr 1) (clear_bucket 1 (fill_bucket 1 (Ptr ''b'') (Ptr (7::nat)) (new_map 2 hashmap_key_compare_str hashmap_key_hash_str)))))))
   \<and> hashmap_remove (Ptr (fill_bucket 0 (Ptr ''a'') (Ptr 2) (fill_bucket 0 (Ptr ''a'') (Ptr 1) (clear_bucket 1 (fill_bucket 1 (Ptr ''b'') (Ptr (7::nat)) (new_map 2 hashmap_key_compare_str hashmap_key_hash_str)))))) (Ptr ''a'') True
     = Returns (HASHMAP_OK, Ptr (clear_bucket 0 (fill_bucket 0 (Ptr ''a'') (Ptr 2) (fill_bucket 0 (Ptr ''a'') (Ptr 1) (clear_bucket 1 (fill_bucket 1 (Ptr ''b'') (Ptr (7::nat)) (new_map 2 hashmap_key_compare_str hashmap_key_hash_str)))))), Some (Ptr 2))
   \<and> in_use_count (clear_bucket 0 (fill_bucket 0 (Ptr ''a'') (Ptr 2) (fill_bucket 0 (Ptr ''a'') (Ptr 1) (clear_bucket 1 (fill_bucket 1 (Ptr ''b'') (Ptr (7::nat)) (new_map 2 hashmap_key_compare_str hashmap_key_hash_str)))))) = 0
   \<and> map_cur_size (clear_bucket 0 (fill_bucket 0 (Ptr ''a'') (Ptr 2) (fill_bucket 0 (Ptr ''a'') (Ptr 1) (clear_bucket 1 (fill_bucket 1 (Ptr ''b'') (Ptr (7::nat)) (new_map 2 hashmap_key_compare_str hashmap_key_hash_str)))))) = 1
   \<and> hashmap_get (Ptr (clear_bucket 0 (fill_bucket 0 (Ptr ''a'') (Ptr 2) (fill_bucket 0 (Ptr ''a'') (Ptr 1) (clear_bucket 1 (fill_bucket 1 (Ptr ''b'') (Ptr (7::nat)) (new_map 2 hashmap_key_compare_str hashmap_key_hash_str))))))) (Ptr ''a'')
     = Returns (HASHMAP_NOT_FOUND, None)
   \<and> hashmap_remove (Ptr (clear_bucket 0 (fill_bucket 0 (Ptr ''a'') (Ptr 2) (fill_bucket 0 (Ptr ''a'') (Ptr 1) (clear_bucket 1 (fill_bucket 1 (Ptr ''b'') (Ptr (7::nat)) (new_map 2 hashmap_key_compare_str hashmap_key_hash_str))))))) (Ptr ''a'') True
     = Returns (HASHMAP_NOT_FOUND, Ptr (clear_bucket 0 (fill_bucket 0 (Ptr ''a'') (Ptr 2) (fill_bucket 0 (Ptr ''a'') (Ptr 1) (clear_bucket 1 (fill_bucket 1 (Ptr ''b'') (Ptr (7::nat)) (new_map 2 hashmap_key_compare_str hashmap_key_hash_str)))))), None)
   \<and> HASHMAP_NOT_FOUND \<noteq> HASHMAP_EMPTY"
proof -
  have "in_use_count (clear_bucket 0 (fill_bucket 0 (Ptr ''a'') (Ptr 2) (fill_bucket 0 (Ptr ''a'') (Ptr 1) (clear_bucket 1 (fill_bucket 1 (Ptr ''b'') (Ptr (7::nat)) (new_map 2 hashmap_key_compare_str hashmap_key_hash_str)))))) = 0"
    by (simp add: in_use_count_def numeral_2_eq_2)
  then show ?thesis
    by (simp add: run_simps str_simps strcmp_eq_0_iff)
qed

section \<open>Tables built by insertion only\<close>

lemma consistent_onD:
  assumes "consistent_on D cmp hsh"
  shows "a \<in> D \<Longrightarrow> hsh a \<noteq> Undefined"
    and "a \<in> D \<Longrightarrow> b \<in> D \<Longrightarrow> cmp a b \<noteq> Undefined"
    and "a \<in> D \<Longrightarrow> cmp a a = Returns 0"
    and "a \<in> D \<Longrightarrow> b \<in> D \<Longrightarrow> cmp a b = Returns 0 \<Longrightarrow> cmp b a = Returns 0"
    and "a \<in> D \<Longrightarrow> b \<in> D \<Longrightarrow> c \<in> D \<Longrightarrow> cmp a b = Returns 0 \<Longrightarrow> cmp b c = Returns 0
         \<Longrightarrow> cmp a c = Returns 0"
    and "a \<in> D \<Longrightarrow> b \<in> D \<Longrightarrow> cmp a b = Returns 0 \<Longrightarrow> hsh a = hsh b"
proof -
  note c = assms [unfolded consistent_on_def]
  note c1 = c [THEN conjunct1]
  note c2 = c [THEN conjunct2, THEN conjunct1]
  note c3 = c [THEN conjunct2, THEN conjunct2, THEN conjunct1]
  note c4 = c [THEN conjunct2, THEN conjunct2, THEN conjunct2, THEN conjunct1]
  note c5 = c [THEN conjunct2, THEN conjunct2, THEN conjunct2, THEN conjunct2, THEN conjunct1]
  note c6 = c [THEN conjunct2, THEN conjunct2, THEN conjunct2, THEN conjunct2, THEN conjunct2]
  show "a \<in> D \<Longrightarrow> hsh a \<noteq> Undefined" using c1 by blast
  show "a \<in> D \<Longrightarrow> b \<in> D \<Longrightarrow> cmp a b \<noteq> Undefined" using c2 by blast
  show "a \<in> D \<Longrightarrow> cmp a a = Returns 0" using c3 by blast
  show "a \<in> D \<Longrightarrow> b \<in> D \<Longrightarrow> cmp a b = Returns 0 \<Longrightarrow> cmp b a = Returns 0"
    using c4 by blast
  show "a \<in> D \<Longrightarrow> b \<in> D \<Longrightarrow> c \<in> D \<Longrightarrow> cmp a b = Returns 0 \<Longrightarrow> cmp b c = Returns 0
         \<Longrightarrow> cmp a c = Returns 0"
    using c5 by blast
  show "a \<in> D \<Longrightarrow> b \<in> D \<Longrightarrow> cmp a b = Returns 0 \<Longrightarrow> hsh a = hsh b"
    using c6 by blast
qed

lemma consistent_defined: "consistent_on D cmp hsh \<Longrightarrow> defined_on D cmp hsh"
  unfolding consistent_on_def defined_on_def by (elim conjE) (intro conjI)

lemma keys_inD:
  "keys_in D m \<Longrightarrow> i < map_max_size m \<Longrightarrow> bucket_in_use (map_buckets m ! i) \<Longrightarrow>
   bucket_key (map_buckets m ! i) \<in> D"
  by (simp add: keys_in_def)

lemma seek_fill_same:
  "hashmap_hash_seek m key c n = Returns (int s) \<Longrightarrow> s < length (map_buckets m) \<Longrightarrow>
   map_compare m key key = Returns 0 \<Longrightarrow>
   hashmap_hash_seek (fill_bucket s key val m) key c n = Returns (int s)"
proof (induction n arbitrary: c)
  case 0
  then show ?case by simp
next
  case (Suc n)
  show ?case
  proof (cases "\<not> bucket_in_use (map_buckets m ! c)
                \<or> map_compare m (bucket_key (map_buckets m ! c)) key = Returns 0")
    case True
    then have "s = c" using Suc.prems(1) by (auto split: if_splits outcome.splits)
    then show ?thesis using Suc.prems by simp
  next
    case False
    then obtain r where r: "map_compare m (bucket_key (map_buckets m ! c)) key = Returns r"
        "r \<noteq> 0" and u: "bucket_in_use (map_buckets m ! c)"
      and rec: "hashmap_hash_seek m key ((c + 1) mod map_max_size m) n = Returns (int s)"
      using Suc.prems(1) by (auto split: if_splits outcome.splits)
    have "s \<noteq> c" using hash_seek_stops [OF rec] False by auto
    then show ?thesis using Suc.IH [OF rec Suc.prems(2,3)] r u by simp
  qed
qed

lemma seek_fill_other:
  "hashmap_hash_seek m k' c n = Returns (int j) \<Longrightarrow> j \<noteq> s \<Longrightarrow> s < length (map_buckets m) \<Longrightarrow>
   (bucket_in_use (map_buckets m ! s)
      \<Longrightarrow> map_compare m (bucket_key (map_buckets m ! s)) k' \<noteq> Returns 0
      \<Longrightarrow> \<exists>r. map_compare m key k' = Returns r \<and> r \<noteq> 0) \<Longrightarrow>
   hashmap_hash_seek (fill_bucket s key val m) k' c n = Returns (int j)"
proof (induction n arbitrary: c)
  case 0
  then show ?case by simp
next
  case (Suc n)
  show ?case
  proof (cases "\<not> bucket_in_use (map_buckets m ! c)
                \<or> map_compare m (bucket_key (map_buckets m ! c)) k' = Returns 0")
    case True
    then have "j = c" using Suc.prems(1) by (auto split: if_splits outcome.splits)
    then show ?thesis using Suc.prems(2) True by auto
  next
    case False
    then obtain r where r: "map_compare m (bucket_key (map_buckets m ! c)) k' = Returns r"
        "r \<noteq> 0" and u: "bucket_in_use (map_buckets m ! c)"
      and rec: "hashmap_hash_seek m k' ((c + 1) mod map_max_size m) n = Returns (int j)"
      using Suc.prems(1) by (auto split: if_splits outcome.splits)
    have ih: "hashmap_hash_seek (fill_bucket s key val m) k' ((c + 1) mod map_max_size m) n
                = Returns (int j)"
      using Suc.IH [OF rec Suc.prems(2,3)] Suc.prems(4) by blast
    show ?thesis
    proof (cases "c = s")
      case True
      then obtain r' where "map_compare m key k' = Returns r'" "r' \<noteq> 0"
        using False Suc.prems(4) by auto
      then show ?thesis using ih True Suc.prems(3) by simp
    next
      case False
      then show ?thesis using ih r u by simp
    qed
  qed
qed

lemma probeE:
  assumes "probe m key = Returns r"
  obtains h where "map_hash m key = Returns h"
    and "hashmap_hash_seek m key (unat h mod map_max_size m) (map_max_size m) = Returns r"
  using assms by (cases "map_hash m key") (auto simp: probe_def)

lemma finds_own_slot_fill:
  assumes ok: "table_ok m" and con: "consistent_on D (map_compare m) (map_hash m)"
    and kin: "keys_in D m" and kD: "key \<in> D" and inv: "finds_own_slot m"
    and ix: "hashmap_hash (Ptr m) key = Returns index" and nf: "index \<noteq> HASHMAP_FULL"
  shows "finds_own_slot (fill_bucket (nat index) key val m)"
  unfolding finds_own_slot_def
proof (intro allI impI)
  let ?s = "nat index"
  let ?m' = "fill_bucket ?s key val m"
  note hi = hashmap_hash_index [OF ok ix nf]
  have pr: "probe m key = Returns (int ?s)" using hi(1,2) by simp
  obtain h where h: "map_hash m key = Returns h"
    and sk: "hashmap_hash_seek m key (unat h mod map_max_size m) (map_max_size m)
               = Returns (int ?s)"
    using pr by (rule probeE)
  fix i
  assume i: "i < map_max_size ?m'" and used: "bucket_in_use (map_buckets ?m' ! i)"
  show "probe ?m' (bucket_key (map_buckets ?m' ! i)) = Returns (int i)"
  proof (cases "i = ?s")
    case True
    have "hashmap_hash_seek ?m' key (unat h mod map_max_size m) (map_max_size m)
            = Returns (int ?s)"
      using sk hi(4) consistent_onD(3) [OF con kD] by (rule seek_fill_same)
    then show ?thesis using True hi(4) h by (simp add: probe_def)
  next
    case False
    let ?k = "bucket_key (map_buckets m ! i)"
    have same: "map_buckets ?m' ! i = map_buckets m ! i"
      using False by simp
    have im: "i < map_max_size m" and um: "bucket_in_use (map_buckets m ! i)"
      using i used same by simp_all
    have kiD: "?k \<in> D" using kin im um by (rule keys_inD)
    have own: "probe m ?k = Returns (int i)"
      using inv im um by (simp add: finds_own_slot_def)
    obtain h' where h': "map_hash m ?k = Returns h'"
      and sk': "hashmap_hash_seek m ?k (unat h' mod map_max_size m) (map_max_size m)
                  = Returns (int i)"
      using own by (rule probeE)
    have "hashmap_hash_seek ?m' ?k (unat h' mod map_max_size m) (map_max_size m)
            = Returns (int i)"
    proof (rule seek_fill_other [OF sk' False hi(4)])
      assume u: "bucket_in_use (map_buckets m ! ?s)"
        and ne: "map_compare m (bucket_key (map_buckets m ! ?s)) ?k \<noteq> Returns 0"
      have ksD: "bucket_key (map_buckets m ! ?s) \<in> D" using kin hi(3) u by (rule keys_inD)
      have eq: "map_compare m (bucket_key (map_buckets m ! ?s)) key = Returns 0"
        using hash_seek_stops [OF sk] u by auto
      have "map_compare m key ?k \<noteq> Returns 0"
        using ne eq consistent_onD(5) [OF con ksD kD kiD] by blast
      moreover have "map_compare m key ?k \<noteq> Undefined"
        using consistent_onD(2) [OF con kD kiD] .
      ultimately show "\<exists>r. map_compare m key ?k = Returns r \<and> r \<noteq> 0"
        by (cases "map_compare m key ?k") auto
    qed
    then show ?thesis using same h' by (simp add: probe_def)
  qed
qed

lemma seek_cong:
  assumes "\<And>i. i < map_max_size m \<Longrightarrow> bucket_in_use (map_buckets m ! i) \<Longrightarrow>
     map_compare m (bucket_key (map_buckets m ! i)) k \<noteq> Undefined
     \<and> map_compare m (bucket_key (map_buckets m ! i)) k' \<noteq> Undefined
     \<and> (map_compare m (bucket_key (map_buckets m ! i)) k = Returns 0
        \<longleftrightarrow> map_compare m (bucket_key (map_buckets m ! i)) k' = Returns 0)"
  shows "c < map_max_size m \<Longrightarrow> hashmap_hash_seek m k c n = hashmap_hash_seek m k' c n"
proof (induction n arbitrary: c)
  case 0
  then show ?case by simp
next
  case (Suc n)
  have lt: "(c + 1) mod map_max_size m < map_max_size m" using Suc.prems by simp
  show ?case
  proof (cases "bucket_in_use (map_buckets m ! c)")
    case False
    then show ?thesis by simp
  next
    case True
    from assms [OF Suc.prems True] obtain r r' where
      "map_compare m (bucket_key (map_buckets m ! c)) k = Returns r"
      "map_compare m (bucket_key (map_buckets m ! c)) k' = Returns r'"
      "r = 0 \<longleftrightarrow> r' = 0"
      by (cases "map_compare m (bucket_key (map_buckets m ! c)) k";
          cases "map_compare m (bucket_key (map_buckets m ! c)) k'") auto
    then show ?thesis using Suc.IH [OF lt] True by simp
  qed
qed

lemma hash_seek_find_seek:
  "hashmap_hash_seek m k c n = Returns (int i) \<Longrightarrow> bucket_in_use (map_buckets m ! i) \<Longrightarrow>
   hashmap_find_seek m k c n = Returns (int i)"
proof (induction n arbitrary: c)
  case 0
  then show ?case by simp
next
  case (Suc n)
  then show ?case by (auto split: if_splits outcome.splits)
qed

lemma in_use_count_pos:
  "i < length (map_buckets m) \<Longrightarrow> bucket_in_use (map_buckets m ! i) \<Longrightarrow> 0 < in_use_count m"
  unfolding in_use_count_def by (metis filter_empty_conv length_greater_0_conv nth_mem)

lemma own_slot_of_equal_key:
  assumes con: "consistent_on D (map_compare m) (map_hash m)" and kin: "keys_in D m"
    and kD: "key \<in> D" and inv: "finds_own_slot m"
    and i: "i < map_max_size m" "bucket_in_use (map_buckets m ! i)"
    and eq: "map_compare m (bucket_key (map_buckets m ! i)) key = Returns 0"
  shows "probe m key = Returns (int i)"
proof -
  let ?k = "bucket_key (map_buckets m ! i)"
  have kiD: "?k \<in> D" using kin i by (rule keys_inD)
  have hs: "map_hash m ?k = map_hash m key" using consistent_onD(6) [OF con kiD kD eq] .
  have own: "probe m ?k = Returns (int i)"
    using inv i unfolding finds_own_slot_def by blast
  obtain h where h: "map_hash m ?k = Returns h"
    and sk: "hashmap_hash_seek m ?k (unat h mod map_max_size m) (map_max_size m)
               = Returns (int i)"
    using own by (rule probeE)
  have lt: "unat h mod map_max_size m < map_max_size m" using i(1) by simp
  have "hashmap_hash_seek m ?k (unat h mod map_max_size m) (map_max_size m)
          = hashmap_hash_seek m key (unat h mod map_max_size m) (map_max_size m)"
  proof (rule seek_cong [OF _ lt])
    fix j
    assume j: "j < map_max_size m" "bucket_in_use (map_buckets m ! j)"
    let ?x = "bucket_key (map_buckets m ! j)"
    have xD: "?x \<in> D" using kin j by (rule keys_inD)
    have "map_compare m ?x ?k = Returns 0 \<longleftrightarrow> map_compare m ?x key = Returns 0"
      using eq consistent_onD(4) [OF con kiD kD eq] consistent_onD(5) [OF con xD kiD kD]
        consistent_onD(5) [OF con xD kD kiD]
      by blast
    then show "map_compare m ?x ?k \<noteq> Undefined \<and> map_compare m ?x key \<noteq> Undefined
        \<and> (map_compare m ?x ?k = Returns 0 \<longleftrightarrow> map_compare m ?x key = Returns 0)"
      using consistent_onD(2) [OF con xD kiD] consistent_onD(2) [OF con xD kD] by simp
  qed
  then show ?thesis using sk h hs by (simp add: probe_def)
qed

lemma get_of_entry:
  assumes "sound m" and con: "consistent_on D (map_compare m) (map_hash m)"
    and kin: "keys_in D m" and kD: "key \<in> D" and inv: "finds_own_slot m"
    and e: "entry m key val"
  shows "hashmap_get (Ptr m) key = Returns (HASHMAP_OK, Some val)"
proof -
  obtain i where i: "i < map_max_size m" "bucket_in_use (map_buckets m ! i)"
      "map_compare m (bucket_key (map_buckets m ! i)) key = Returns 0"
      "bucket_value (map_buckets m ! i) = val"
    using e by (auto simp: entry_def)
  have len: "length (map_buckets m) = map_max_size m"
    using assms(1) by (simp add: sound_def table_ok_def)
  have "0 < in_use_count m" using in_use_count_pos [of i m] i len by simp
  then have cur: "map_cur_size m \<noteq> 0" using assms(1) by (simp add: sound_def)
  have "probe m key = Returns (int i)"
    using own_slot_of_equal_key [OF con kin kD inv i(1,2,3)] .
  then obtain h where h: "map_hash m key = Returns h"
    and sk: "hashmap_hash_seek m key (unat h mod map_max_size m) (map_max_size m)
               = Returns (int i)"
    by (rule probeE)
  have "hashmap_find_seek m key (unat h mod map_max_size m) (map_max_size m) = Returns (int i)"
    using sk i(2) by (rule hash_seek_find_seek)
  then have "hashmap_find (Ptr m) key = Returns (int i)"
    using cur h by (simp add: hashmap_find_eq scan_def)
  then show ?thesis using i(4) by (simp add: hashmap_get_def)
qed

lemma entry_unique:
  assumes con: "consistent_on D (map_compare m) (map_hash m)" and kin: "keys_in D m"
    and kD: "key \<in> D" and inv: "finds_own_slot m"
    and "entry m key val"
    and j: "j < map_max_size m" "bucket_in_use (map_buckets m ! j)"
      "map_compare m (bucket_key (map_buckets m ! j)) key = Returns 0"
  shows "bucket_value (map_buckets m ! j) = val"
proof -
  obtain i where i: "i < map_max_size m" "bucket_in_use (map_buckets m ! i)"
      "map_compare m (bucket_key (map_buckets m ! i)) key = Returns 0"
      "bucket_value (map_buckets m ! i) = val"
    using assms(5) by (auto simp: entry_def)
  have "int i = int j"
    using own_slot_of_equal_key [OF con kin kD inv i(1,2,3)]
      own_slot_of_equal_key [OF con kin kD inv j]
    by simp
  then show ?thesis using i(4) by simp
qed

lemma entry_fill_same:
  assumes "table_ok m" "hashmap_hash (Ptr m) key = Returns index" "index \<noteq> HASHMAP_FULL"
    "map_compare m key key' = Returns 0"
  shows "entry (fill_bucket (nat index) key val m) key' val"
proof -
  note hi = hashmap_hash_index [OF assms(1,2,3)]
  show ?thesis using hi(3,4) assms(4)
    unfolding entry_def by (intro exI [of _ "nat index"]) simp
qed

lemma entry_fill_other:
  assumes ok: "table_ok m" and con: "consistent_on D (map_compare m) (map_hash m)"
    and kin: "keys_in D m" and kD: "key \<in> D" and k'D: "k' \<in> D"
    and ix: "hashmap_hash (Ptr m) key = Returns index" and nf: "index \<noteq> HASHMAP_FULL"
    and e: "entry m k' v'" and ne: "map_compare m key k' \<noteq> Returns 0"
  shows "entry (fill_bucket (nat index) key val m) k' v'"
proof -
  let ?s = "nat index"
  note hi = hashmap_hash_index [OF ok ix nf]
  have pr: "probe m key = Returns (int ?s)" using hi(1,2) by simp
  obtain h where h: "map_hash m key = Returns h"
    and sk: "hashmap_hash_seek m key (unat h mod map_max_size m) (map_max_size m)
               = Returns (int ?s)"
    using pr by (rule probeE)
  obtain i where i: "i < map_max_size m" "bucket_in_use (map_buckets m ! i)"
      "map_compare m (bucket_key (map_buckets m ! i)) k' = Returns 0"
      "bucket_value (map_buckets m ! i) = v'"
    using e by (auto simp: entry_def)
  have kiD: "bucket_key (map_buckets m ! i) \<in> D" using kin i(1,2) by (rule keys_inD)
  have "i \<noteq> ?s"
  proof
    assume "i = ?s"
    then have eq: "map_compare m (bucket_key (map_buckets m ! i)) key = Returns 0"
      using hash_seek_stops [OF sk] i(2) by auto
    have "map_compare m key (bucket_key (map_buckets m ! i)) = Returns 0"
      using consistent_onD(4) [OF con kiD kD eq] .
    then have "map_compare m key k' = Returns 0"
      using i(3) consistent_onD(5) [OF con kD kiD k'D] by blast
    then show False using ne by simp
  qed
  then have "map_buckets (fill_bucket ?s key val m) ! i = map_buckets m ! i"
    by simp
  then show ?thesis using i unfolding entry_def by (intro exI [of _ i]) simp
qed

lemma well_kept_fill:
  assumes "well_kept D m" "key \<in> D" "hashmap_hash (Ptr m) key = Returns index"
    "index \<noteq> HASHMAP_FULL"
  shows "well_kept D (fill_bucket (nat index) key val m)"
proof -
  have s: "sound m" and ok: "table_ok m" and inv: "finds_own_slot m" and kin: "keys_in D m"
    and con: "consistent_on D (map_compare m) (map_hash m)"
    using assms(1) by (simp_all add: well_kept_def sound_def)
  note hi = hashmap_hash_index [OF ok assms(3,4)]
  show ?thesis
    using sound_fill [OF s assms(3,4)] finds_own_slot_fill [OF ok con kin assms(2) inv assms(3,4)]
      keys_in_fill [OF kin assms(2) hi(4)] con
    by (simp add: well_kept_def)
qed

lemma well_kept_hash:
  assumes "well_kept D m" "key \<in> D"
  obtains index where "hashmap_hash (Ptr m) key = Returns index"
proof -
  have "table_ok m" "keys_in D m" "defined_on D (map_compare m) (map_hash m)"
    using assms(1) consistent_defined by (auto simp: well_kept_def sound_def)
  from hashmap_hash_defined [OF this(1,2) assms(2) this(3)] that show ?thesis
    by (cases "hashmap_hash (Ptr m) key") auto
qed

lemma well_kept_not_full:
  "well_kept D m \<Longrightarrow> map_cur_size m < map_max_size m \<Longrightarrow>
   hashmap_hash (Ptr m) key \<noteq> Returns HASHMAP_FULL"
  using hashmap_hash_not_full [of m key] by (simp add: well_kept_def sound_def)

lemma well_kept_place:
  assumes "well_kept D m" "key \<in> D" "hashmap_hash (Ptr m) key \<noteq> Returns HASHMAP_FULL"
  shows "\<exists>index. hashmap_hash (Ptr m) key = Returns index \<and> index \<noteq> HASHMAP_FULL
    \<and> place key val m = Returns (fill_bucket (nat index) key val m)
    \<and> well_kept D (fill_bucket (nat index) key val m)"
proof -
  obtain index where ix: "hashmap_hash (Ptr m) key = Returns index"
    using assms(1,2) by (rule well_kept_hash)
  then have nf: "index \<noteq> HASHMAP_FULL" using assms(3) by auto
  have "place key val m = Returns (fill_bucket (nat index) key val m)"
    using ix by (simp add: place_def)
  then show ?thesis using ix nf well_kept_fill [OF assms(1,2) ix nf] by blast
qed

lemma reinsert_well_kept:
  assumes "well_kept D m" "map_cur_size m + length (filter bucket_in_use bs) \<le> map_max_size m"
    and "\<forall>b\<in>set bs. bucket_in_use b \<longrightarrow> bucket_key b \<in> D"
  shows "\<exists>m2. reinsert m bs = Returns m2 \<and> well_kept D m2"
  using assms
proof (induction bs arbitrary: m)
  case Nil
  then show ?case by simp
next
  case (Cons b bs)
  show ?case
  proof (cases "bucket_in_use b")
    case False
    then show ?thesis using Cons by simp
  next
    case True
    have lt: "map_cur_size m < map_max_size m" using Cons.prems True by simp
    have kD: "bucket_key b \<in> D" using Cons.prems(3) True by simp
    obtain index where ix: "place (bucket_key b) (bucket_value b) m
        = Returns (fill_bucket (nat index) (bucket_key b) (bucket_value b) m)"
      "well_kept D (fill_bucket (nat index) (bucket_key b) (bucket_value b) m)"
      using well_kept_place [OF Cons.prems(1) kD well_kept_not_full [OF Cons.prems(1) lt]]
      by blast
    then show ?thesis using Cons.IH [OF ix(2)] Cons.prems(2,3) True by simp
  qed
qed

lemma reinsert_entry:
  assumes "well_kept D m" "map_cur_size m + length (filter bucket_in_use bs) \<le> map_max_size m"
    and "\<forall>b\<in>set bs. bucket_in_use b \<longrightarrow> bucket_key b \<in> D" and "k \<in> D"
    and "reinsert m bs = Returns m2"
    and "entry m k v
         \<or> (\<exists>b\<in>set bs. bucket_in_use b \<and> map_compare m (bucket_key b) k = Returns 0
                \<and> bucket_value b = v)"
    and "\<forall>b\<in>set bs. bucket_in_use b \<and> map_compare m (bucket_key b) k = Returns 0
           \<longrightarrow> bucket_value b = v"
  shows "entry m2 k v"
  using assms
proof (induction bs arbitrary: m)
  case Nil
  then show ?case by simp
next
  case (Cons b bs)
  show ?case
  proof (cases "bucket_in_use b")
    case False
    then show ?thesis using Cons.IH [of m] Cons.prems by auto
  next
    case True
    have lt: "map_cur_size m < map_max_size m" using Cons.prems(2) True by simp
    have kD: "bucket_key b \<in> D" using Cons.prems(3) True by simp
    have nf: "hashmap_hash (Ptr m) (bucket_key b) \<noteq> Returns HASHMAP_FULL"
      using Cons.prems(1) lt by (rule well_kept_not_full)
    obtain index where ix: "hashmap_hash (Ptr m) (bucket_key b) = Returns index"
        "index \<noteq> HASHMAP_FULL"
        "place (bucket_key b) (bucket_value b) m
           = Returns (fill_bucket (nat index) (bucket_key b) (bucket_value b) m)"
        "well_kept D (fill_bucket (nat index) (bucket_key b) (bucket_value b) m)"
      using well_kept_place [OF Cons.prems(1) kD nf] by blast
    let ?m1 = "fill_bucket (nat index) (bucket_key b) (bucket_value b) m"
    have ok: "table_ok m" and con: "consistent_on D (map_compare m) (map_hash m)"
      and kin: "keys_in D m"
      using Cons.prems(1) by (simp_all add: well_kept_def sound_def)
    have sz: "map_cur_size ?m1 + length (filter bucket_in_use bs) \<le> map_max_size ?m1"
      using Cons.prems(2) True by simp
    have bs: "\<forall>b\<in>set bs. bucket_in_use b \<longrightarrow> bucket_key b \<in> D"
      using Cons.prems(3) by simp
    have re: "reinsert ?m1 bs = Returns m2" using Cons.prems(5) True ix(3) by simp
    have uniq: "\<forall>b\<in>set bs. bucket_in_use b \<and> map_compare ?m1 (bucket_key b) k = Returns 0
                  \<longrightarrow> bucket_value b = v"
      using Cons.prems(7) by simp
    have "entry ?m1 k v
          \<or> (\<exists>b\<in>set bs. bucket_in_use b \<and> map_compare ?m1 (bucket_key b) k = Returns 0
                 \<and> bucket_value b = v)"
    proof (cases "map_compare m (bucket_key b) k = Returns 0")
      case eq: True
      then have "bucket_value b = v" using Cons.prems(7) True by simp
      then show ?thesis using entry_fill_same [OF ok ix(1,2) eq] by simp
    next
      case ne: False
      show ?thesis
      proof (cases "entry m k v")
        case True
        then show ?thesis
          using entry_fill_other [OF ok con kin kD Cons.prems(4) ix(1,2) _ ne] by simp
      next
        case False
        then show ?thesis using Cons.prems(6) ne by auto
      qed
    qed
    from Cons.IH [OF ix(4) sz bs Cons.prems(4) re this uniq] show ?thesis .
  qed
qed

lemma finds_own_slot_grow: "finds_own_slot (grow m)"
  by (simp add: finds_own_slot_def zero_bucket_def)

lemma well_kept_grow:
  "table_ok m \<Longrightarrow> consistent_on D (map_compare m) (map_hash m) \<Longrightarrow> well_kept D (grow m)"
  by (simp add: well_kept_def sound_grow finds_own_slot_grow keys_in_grow)

lemma rebuilt:
  assumes "well_kept D m"
  shows "\<exists>m2. reinsert (grow m) (map_buckets m) = Returns m2 \<and> well_kept D m2
    \<and> (\<forall>k v. entry m k v \<and> k \<in> D \<longrightarrow> entry m2 k v)"
proof -
  have ok: "table_ok m" and con: "consistent_on D (map_compare m) (map_hash m)"
    and inv: "finds_own_slot m" and kin: "keys_in D m"
    using assms by (simp_all add: well_kept_def sound_def)
  have len: "length (map_buckets m) = map_max_size m"
    using ok by (simp_all add: table_ok_def)
  have wk: "well_kept D (grow m)" using ok con by (rule well_kept_grow)
  note sz = grow_room [OF ok]
  note bs = keys_in_buckets [OF ok kin]
  obtain m2 where m2: "reinsert (grow m) (map_buckets m) = Returns m2" "well_kept D m2"
    using reinsert_well_kept [OF wk sz bs] by blast
  have "entry m2 k v" if e: "entry m k v" and kD: "k \<in> D" for k v
  proof (rule reinsert_entry [OF wk sz bs kD m2(1)])
    obtain i where i: "i < map_max_size m" "bucket_in_use (map_buckets m ! i)"
        "map_compare m (bucket_key (map_buckets m ! i)) k = Returns 0"
        "bucket_value (map_buckets m ! i) = v"
      using e by (auto simp: entry_def)
    have "map_buckets m ! i \<in> set (map_buckets m)" using i(1) len by simp
    then show "entry (grow m) k v
          \<or> (\<exists>b\<in>set (map_buckets m). bucket_in_use b
                 \<and> map_compare (grow m) (bucket_key b) k = Returns 0 \<and> bucket_value b = v)"
      using i by auto
    show "\<forall>b\<in>set (map_buckets m). bucket_in_use b
             \<and> map_compare (grow m) (bucket_key b) k = Returns 0 \<longrightarrow> bucket_value b = v"
    proof (intro ballI impI)
      fix b
      assume "b \<in> set (map_buckets m)"
        and b: "bucket_in_use b \<and> map_compare (grow m) (bucket_key b) k = Returns 0"
      then obtain j where "j < map_max_size m" "map_buckets m ! j = b"
        using len by (auto simp: in_set_conv_nth)
      then show "bucket_value b = v"
        using entry_unique [OF con kin kD inv e, of j] b by auto
    qed
  qed
  then show ?thesis using m2 by blast
qed

lemma put_result_kept:
  assumes wk: "well_kept D m" and kD: "key \<in> D"
  shows "\<exists>status m'. put_result calloc m key val = Returns (status, Ptr m')
           \<and> well_kept D m' \<and> map_compare m' = map_compare m
           \<and> map_hash m' = map_hash m
           \<and> (status = HASHMAP_OK \<longrightarrow> entry m' key val)
           \<and> (calloc (2 * map_max_size m) \<longrightarrow> status = HASHMAP_OK)
           \<and> (\<forall>k' v'. entry m k' v' \<and> k' \<in> D \<and> map_compare m key k' \<noteq> Returns 0
                  \<longrightarrow> entry m' k' v')"
proof -
  have ok: "table_ok m" and con: "consistent_on D (map_compare m) (map_hash m)"
    and kin: "keys_in D m"
    using wk by (simp_all add: well_kept_def sound_def)
  have refl: "map_compare m key key = Returns 0" using consistent_onD(3) [OF con kD] .
  obtain index where ix: "hashmap_hash (Ptr m) key = Returns index"
    using wk kD by (rule well_kept_hash)
  show ?thesis
  proof (cases "index = HASHMAP_FULL")
    case nf: False
    have "put_result calloc m key val
            = Returns (HASHMAP_OK, Ptr (fill_bucket (nat index) key val m))"
      using ix nf by (simp add: put_result_def)
    then show ?thesis
      using well_kept_fill [OF wk kD ix nf] entry_fill_same [OF ok ix nf refl]
        entry_fill_other [OF ok con kin kD _ ix nf]
      by auto
  next
    case full: True
    show ?thesis
    proof (cases "calloc (2 * map_max_size m)")
      case False
      then have "put_result calloc m key val = Returns (HASHMAP_FULL, Ptr m)"
        using ix full by (simp add: put_result_def)
      then show ?thesis using wk False by simp
    next
      case True
      obtain m2 where m2: "reinsert (grow m) (map_buckets m) = Returns m2" "well_kept D m2"
        "\<And>k v. entry m k v \<Longrightarrow> k \<in> D \<Longrightarrow> entry m2 k v"
        using rebuilt [OF wk] by blast
      note rb = rebuilt_sound [OF ok m2(1)]
      obtain i2 where i2: "hashmap_hash (Ptr m2) key = Returns i2" "i2 \<noteq> HASHMAP_FULL"
        "place key val m2 = Returns (fill_bucket (nat i2) key val m2)"
        "well_kept D (fill_bucket (nat i2) key val m2)"
        using well_kept_place [OF m2(2) kD rb(8)] by blast
      have ok2: "table_ok m2" and con2: "consistent_on D (map_compare m2) (map_hash m2)"
        and kin2: "keys_in D m2"
        using m2(2) by (simp_all add: well_kept_def sound_def)
      have refl2: "map_compare m2 key key = Returns 0" using refl rb(4) by simp
      have "put_result calloc m key val
              = Returns (HASHMAP_OK, Ptr (fill_bucket (nat i2) key val m2))"
        using ix full True m2(1) i2(3) by (simp add: put_result_def)
      moreover have "entry (fill_bucket (nat i2) key val m2) k' v'"
        if "entry m k' v'" "k' \<in> D" "map_compare m key k' \<noteq> Returns 0" for k' v'
        using entry_fill_other [OF ok2 con2 kin2 kD that(2) i2(1,2) m2(3) [OF that(1,2)]]
          that(3) rb(4) by simp
      ultimately show ?thesis
        using i2(4) entry_fill_same [OF ok2 i2(1,2) refl2] rb(4,5)
        by auto
    qed
  qed
qed

section \<open>Growth\<close>

lemma put_all_append:
  "put_all fuel calloc mp (xs @ ys) =
     (case put_all fuel calloc mp xs of
        None \<Rightarrow> None
      | Some Undefined \<Rightarrow> Some Undefined
      | Some (Returns (sts, mp')) \<Rightarrow>
          (case put_all fuel calloc mp' ys of
             None \<Rightarrow> None
           | Some Undefined \<Rightarrow> Some Undefined
           | Some (Returns (sts', mp'')) \<Rightarrow> Some (Returns (sts @ sts', mp''))))"
  by (induction xs arbitrary: mp) (auto split: option.splits outcome.splits)

lemma distinct_keys_Cons:
  "distinct_keys cmp (k # ks) \<longleftrightarrow>
     (\<forall>k'\<in>set ks. cmp k k' \<noteq> Returns 0 \<and> cmp k' k \<noteq> Returns 0) \<and> distinct_keys cmp ks"
proof
  assume d: "distinct_keys cmp (k # ks)"
  have dd: "cmp ((k # ks) ! i) ((k # ks) ! j) \<noteq> Returns 0"
    if "i < length (k # ks)" "j < length (k # ks)" "i \<noteq> j" for i j
    using d that unfolding distinct_keys_def by blast
  have "cmp k k' \<noteq> Returns 0 \<and> cmp k' k \<noteq> Returns 0" if mem: "k' \<in> set ks" for k'
  proof -
    obtain j where j: "j < length ks" "ks ! j = k'"
      using mem by (auto simp: in_set_conv_nth)
    have "cmp ((k # ks) ! 0) ((k # ks) ! Suc j) \<noteq> Returns 0"
      "cmp ((k # ks) ! Suc j) ((k # ks) ! 0) \<noteq> Returns 0"
      using dd [of 0 "Suc j"] dd [of "Suc j" 0] j(1) by simp_all
    then show ?thesis using j(2) by simp
  qed
  moreover have "distinct_keys cmp ks"
    unfolding distinct_keys_def
  proof (intro allI impI)
    fix i j
    assume "i < length ks" "j < length ks" "i \<noteq> j"
    then have "cmp ((k # ks) ! Suc i) ((k # ks) ! Suc j) \<noteq> Returns 0"
      using dd [of "Suc i" "Suc j"] by simp
    then show "cmp (ks ! i) (ks ! j) \<noteq> Returns 0" by simp
  qed
  ultimately show "(\<forall>k'\<in>set ks. cmp k k' \<noteq> Returns 0 \<and> cmp k' k \<noteq> Returns 0)
      \<and> distinct_keys cmp ks"
    by blast
next
  assume a: "(\<forall>k'\<in>set ks. cmp k k' \<noteq> Returns 0 \<and> cmp k' k \<noteq> Returns 0)
      \<and> distinct_keys cmp ks"
  show "distinct_keys cmp (k # ks)"
    unfolding distinct_keys_def
  proof (intro allI impI)
    fix i j
    assume ij: "i < length (k # ks)" "j < length (k # ks)" "i \<noteq> j"
    show "cmp ((k # ks) ! i) ((k # ks) ! j) \<noteq> Returns 0"
    proof (cases i)
      case 0
      then obtain j' where "j = Suc j'" using ij(3) by (cases j) auto
      then show ?thesis using a 0 ij(2) by simp
    next
      case (Suc i')
      show ?thesis
      proof (cases j)
        case 0
        then show ?thesis using a Suc ij(1) by simp
      next
        case (Suc j')
        then show ?thesis
          using a \<open>i = Suc i'\<close> ij unfolding distinct_keys_def by simp
      qed
    qed
  qed
qed

lemma distinct_keys_Nil [simp]: "distinct_keys cmp []"
  by (simp add: distinct_keys_def)

lemma put_all_kept:
  assumes "well_kept D m" "\<forall>n. calloc n" "distinct_keys (map_compare m) (map fst kvs)"
    and "fst ` set kvs \<subseteq> D"
  shows "\<exists>m'. put_all (Suc fuel) calloc (Ptr m) kvs
                 = Some (Returns (replicate (length kvs) HASHMAP_OK, Ptr m'))
           \<and> well_kept D m' \<and> map_compare m' = map_compare m
           \<and> (\<forall>k' v'. entry m k' v' \<and> k' \<in> D
                  \<and> (\<forall>k\<in>fst ` set kvs. map_compare m k k' \<noteq> Returns 0)
                  \<longrightarrow> entry m' k' v')
           \<and> (\<forall>(k, v)\<in>set kvs. entry m' k v)"
  using assms
proof (induction kvs arbitrary: m)
  case Nil
  then show ?case by simp
next
  case (Cons kv kvs)
  obtain key val where kv: "kv = (key, val)" by (cases kv)
  have kD: "key \<in> D" and ksD: "fst ` set kvs \<subseteq> D" using Cons.prems(4) by (simp_all add: kv)
  have ok: "table_ok m" using Cons.prems(1) by (simp add: well_kept_def sound_def)
  obtain status m1 where res: "put_result calloc m key val = Returns (status, Ptr m1)"
    and m1: "well_kept D m1" "map_compare m1 = map_compare m"
      "status = HASHMAP_OK" "entry m1 key val"
      "\<And>k' v'. entry m k' v' \<Longrightarrow> k' \<in> D \<Longrightarrow> map_compare m key k' \<noteq> Returns 0
         \<Longrightarrow> entry m1 k' v'"
    using put_result_kept [OF Cons.prems(1) kD, of calloc val] Cons.prems(2) by auto
  have d: "\<forall>k'\<in>set (map fst kvs). map_compare m key k' \<noteq> Returns 0
             \<and> map_compare m k' key \<noteq> Returns 0"
    and d': "distinct_keys (map_compare m1) (map fst kvs)"
    using Cons.prems(3) m1(2) by (simp_all add: kv distinct_keys_Cons)
  obtain m' where m': "put_all (Suc fuel) calloc (Ptr m1) kvs
                         = Some (Returns (replicate (length kvs) HASHMAP_OK, Ptr m'))"
      "well_kept D m'" "map_compare m' = map_compare m1"
      "\<And>k' v'. entry m1 k' v' \<Longrightarrow> k' \<in> D
          \<Longrightarrow> \<forall>k\<in>fst ` set kvs. map_compare m1 k k' \<noteq> Returns 0 \<Longrightarrow> entry m' k' v'"
      "\<forall>(k, v)\<in>set kvs. entry m' k v"
    using Cons.IH [OF m1(1) Cons.prems(2) d' ksD] by blast
  have put: "hashmap_put (Suc fuel) calloc (Ptr m) key val = Some (Returns (HASHMAP_OK, Ptr m1))"
    using put_eq [OF ok, of fuel calloc key val] res m1(3) by simp
  have "entry m' key val"
    using m'(4) [OF m1(4) kD] d m1(2) by auto
  moreover have "entry m' k' v'"
    if "entry m k' v'" "k' \<in> D" "\<forall>k\<in>fst ` set (kv # kvs). map_compare m k k' \<noteq> Returns 0"
    for k' v'
    using m'(4) [OF m1(5) [OF that(1,2)] that(2)] that(3) m1(2) by (auto simp: kv)
  ultimately show ?case
    using put m'(1,2,3,5) m1(2) by (auto simp: kv)
qed

lemma put_all_no_growth:
  assumes "well_kept D m" "map_cur_size m + length kvs \<le> map_max_size m"
    and "fst ` set kvs \<subseteq> D"
  shows "\<exists>m'. put_all (Suc fuel) calloc (Ptr m) kvs
                 = Some (Returns (replicate (length kvs) HASHMAP_OK, Ptr m'))
           \<and> map_max_size m' = map_max_size m
           \<and> map_cur_size m' = map_cur_size m + length kvs
           \<and> well_kept D m'"
  using assms
proof (induction kvs arbitrary: m)
  case Nil
  then show ?case by simp
next
  case (Cons kv kvs)
  obtain key val where kv: "kv = (key, val)" by (cases kv)
  have kD: "key \<in> D" and ksD: "fst ` set kvs \<subseteq> D" using Cons.prems(3) by (simp_all add: kv)
  have lt: "map_cur_size m < map_max_size m" using Cons.prems(2) by simp
  have nf: "hashmap_hash (Ptr m) key \<noteq> Returns HASHMAP_FULL"
    using Cons.prems(1) lt by (rule well_kept_not_full)
  obtain index where ix: "hashmap_hash (Ptr m) key = Returns index" "index \<noteq> HASHMAP_FULL"
      "well_kept D (fill_bucket (nat index) key val m)"
    using well_kept_place [OF Cons.prems(1) kD nf] by blast
  let ?m1 = "fill_bucket (nat index) key val m"
  have put: "hashmap_put (Suc fuel) calloc (Ptr m) key val
               = Some (Returns (HASHMAP_OK, Ptr ?m1))"
    using ix(1,2) by (rule put_not_full)
  have "map_cur_size ?m1 + length kvs \<le> map_max_size ?m1"
    using Cons.prems(2) by simp
  then obtain m' where
    "put_all (Suc fuel) calloc (Ptr ?m1) kvs
       = Some (Returns (replicate (length kvs) HASHMAP_OK, Ptr m'))"
    "map_max_size m' = map_max_size ?m1"
    "map_cur_size m' = map_cur_size ?m1 + length kvs" "well_kept D m'"
    using Cons.IH [OF ix(3) _ ksD] by blast
  then show ?case using put by (simp add: kv)
qed

text \<open>
  The string strategies are consistent on the keys that are not the null pointer.
\<close>

lemma consistent_str:
  "consistent_on (range Ptr) hashmap_key_compare_str hashmap_key_hash_str"
  unfolding consistent_on_def
  by (auto simp: strcmp_eq_0_iff hash_str_c_str simp del: hashmap_key_hash_str.simps)

lemma well_kept_new_map:
  "0 < n \<Longrightarrow> consistent_on D cmp hsh \<Longrightarrow> well_kept D (new_map n cmp hsh)"
  by (simp add: well_kept_def sound_def table_ok_def finds_own_slot_def keys_in_def)

lemma replicate_snoc: "replicate n x @ [x] = replicate (Suc n) x"
  by (simp add: replicate_append_same)

lemma growth_of_kept_table:
  assumes wk: "well_kept D m0" and empty: "map_cur_size m0 = 0" and alloc: "\<forall>n. calloc n"
    and len: "length kvs = map_max_size m0 + 1"
    and dist: "distinct_keys (map_compare m0) (map fst kvs)"
    and keys: "fst ` set kvs \<subseteq> D"
  shows "\<exists>m1 m2 m.
           put_all (Suc fuel) calloc (Ptr m0) (butlast kvs)
             = Some (Returns (replicate (map_max_size m0) HASHMAP_OK, Ptr m1))
         \<and> map_max_size m1 = map_max_size m0
         \<and> hashmap_hash (Ptr m1) (fst (last kvs)) = Returns HASHMAP_FULL
         \<and> reinsert (grow m1) (map_buckets m1) = Returns m2
         \<and> hashmap_rehash fuel calloc (Ptr m1) = Some (Returns (HASHMAP_OK, Ptr m2))
         \<and> place (fst (last kvs)) (snd (last kvs)) m2 = Returns m
         \<and> put_all (Suc fuel) calloc (Ptr m0) kvs
             = Some (Returns (replicate (length kvs) HASHMAP_OK, Ptr m))
         \<and> map_max_size m = 2 * map_max_size m0
         \<and> (\<forall>(k, v)\<in>set kvs. hashmap_get (Ptr m) k = Returns (HASHMAP_OK, Some v))"
proof -
  let ?xs = "butlast kvs"
  obtain k v where last: "last kvs = (k, v)" by (cases "last kvs")
  have ne: "kvs \<noteq> []" using len by auto
  then have split: "kvs = ?xs @ [(k, v)]" using last by (metis append_butlast_last_id)
  have lxs: "length ?xs = map_max_size m0" using len by simp
  have kD: "k \<in> D" using keys ne last by (metis fst_conv image_subset_iff last_in_set)
  have xsD: "fst ` set ?xs \<subseteq> D" using keys by (auto dest: in_set_butlastD)
  obtain m1 where m1:
    "put_all (Suc fuel) calloc (Ptr m0) ?xs
       = Some (Returns (replicate (length ?xs) HASHMAP_OK, Ptr m1))"
    "map_max_size m1 = map_max_size m0" "map_cur_size m1 = map_cur_size m0 + length ?xs"
    "well_kept D m1"
    using put_all_no_growth [OF wk _ xsD, of fuel calloc] empty lxs by auto
  have ok1: "table_ok m1" using m1(4) by (simp add: well_kept_def sound_def)
  have full: "hashmap_hash (Ptr m1) k = Returns HASHMAP_FULL"
    using m1(2,3) empty lxs by (simp add: hashmap_hash_eq)
  obtain m2 where m2: "reinsert (grow m1) (map_buckets m1) = Returns m2" "well_kept D m2"
    using rebuilt [OF m1(4)] by blast
  note rb = rebuilt_sound [OF ok1 m2(1)]
  have al: "calloc (2 * map_max_size m1)" using alloc by simp
  have r: "hashmap_rehash fuel calloc (Ptr m1) = Some (Returns (HASHMAP_OK, Ptr m2))"
    using rehash_reinsert [where calloc = calloc and fuel = fuel, OF ok1 al] m2(1) by simp
  obtain i2 where i2: "place k v m2 = Returns (fill_bucket (nat i2) k v m2)"
    using well_kept_place [OF m2(2) kD rb(8)] by blast
  let ?m = "fill_bucket (nat i2) k v m2"
  have put: "hashmap_put (Suc fuel) calloc (Ptr m1) k v = Some (Returns (HASHMAP_OK, Ptr ?m))"
    using put_eq [OF ok1, of fuel calloc k v] full al m2(1) i2 by (simp add: put_result_def)
  have all: "put_all (Suc fuel) calloc (Ptr m0) kvs
               = Some (Returns (replicate (length kvs) HASHMAP_OK, Ptr ?m))"
    using m1(1) put lxs len
    by (subst split, subst put_all_append) (simp add: replicate_snoc)
  obtain m' where m': "put_all (Suc fuel) calloc (Ptr m0) kvs
      = Some (Returns (replicate (length kvs) HASHMAP_OK, Ptr m'))" "well_kept D m'"
      "\<forall>(k, v)\<in>set kvs. entry m' k v"
    using put_all_kept [OF wk alloc dist keys, of fuel] by blast
  have eq: "m' = ?m" using all m'(1) by simp
  have gets: "hashmap_get (Ptr ?m) k' = Returns (HASHMAP_OK, Some v')"
    if kv: "(k', v') \<in> set kvs" for k' v'
  proof -
    have "k' \<in> D" using keys kv by force
    moreover have "entry ?m k' v'" using m'(3) kv unfolding eq by auto
    ultimately show ?thesis
      using m'(2) get_of_entry [of ?m D k' v'] unfolding eq by (simp add: well_kept_def)
  qed
  have "map_max_size ?m = 2 * map_max_size m0" using rb(3) m1(2) by simp
  then show ?thesis using m1(1,2) lxs full m2(1) r i2 all gets last by auto
qed

text \<open>
  Claim C7. Take a table that \<^verbatim>\<open>hashmap_new\<close> created, with strategies that are
  consistent on a set \<open>D\<close> of keys (the string strategies are, on the keys that are not the
  null pointer, by \<open>consistent_str\<close>), an allocator that grants every request, and one more
  pair than the capacity, with keys of \<open>D\<close> no two of which compare equal.
  Putting the pairs in turn, every \<^verbatim>\<open>hashmap_put\<close> returns \<^verbatim>\<open>HASHMAP_OK\<close>. The puts
  before the last leave the capacity as it was; the last one finds the table full and
  runs \<^verbatim>\<open>hashmap_rehash\<close>, which returns \<^verbatim>\<open>HASHMAP_OK\<close> with the occupied buckets of the
  old array placed, in slot-index order, into an array of twice the capacity, and then
  fills its own bucket there. Afterwards \<^verbatim>\<open>hashmap_get\<close> returns, for each of the keys,
  the value put with it.
\<close>

theorem capacity_growth:
  assumes "hashmap_new calloc_map calloc max_size compare_fun hash_fun = Ptr m0"
    and "\<forall>n. calloc n"
    and "consistent_on D (map_compare m0) (map_hash m0)"
    and "fst ` set kvs \<subseteq> D"
    and "length kvs = map_max_size m0 + 1"
    and "distinct_keys (map_compare m0) (map fst kvs)"
  shows "\<exists>m1 m2 m.
           put_all (Suc fuel) calloc (Ptr m0) (butlast kvs)
             = Some (Returns (replicate (map_max_size m0) HASHMAP_OK, Ptr m1))
         \<and> map_max_size m1 = map_max_size m0
         \<and> hashmap_hash (Ptr m1) (fst (last kvs)) = Returns HASHMAP_FULL
         \<and> reinsert (grow m1) (map_buckets m1) = Returns m2
         \<and> hashmap_rehash fuel calloc (Ptr m1) = Some (Returns (HASHMAP_OK, Ptr m2))
         \<and> place (fst (last kvs)) (snd (last kvs)) m2 = Returns m
         \<and> put_all (Suc fuel) calloc (Ptr m0) kvs
             = Some (Returns (replicate (length kvs) HASHMAP_OK, Ptr m))
         \<and> map_max_size m = 2 * map_max_size m0
         \<and> (\<forall>(k, v)\<in>set kvs. hashmap_get (Ptr m) k = Returns (HASHMAP_OK, Some v))"
proof -
  let ?n = "if max_size = 0 then 16 else max_size"
  have m0: "m0 = new_map ?n (strategy hashmap_key_compare_str compare_fun)
                   (strategy hashmap_key_hash_str hash_fun)"
    using assms(1) by (simp add: hashmap_new_eq split: if_splits)
  have "well_kept D m0"
    using assms(3) unfolding m0 by (intro well_kept_new_map) simp_all
  moreover have "map_cur_size m0 = 0" unfolding m0 by simp
  ultimately show ?thesis using assms(2,5,6,4) by (rule growth_of_kept_table)
qed

text \<open>Three keys into a table of capacity 2, with the string strategies.\<close>

theorem capacity_growth_witness:
  "\<exists>m. put_all 1 calloc_any (hashmap_new True calloc_any 2 NULL NULL)
          [(Ptr ''a'', Ptr (1::nat)), (Ptr ''b'', Ptr 2), (Ptr ''c'', Ptr 3)]
        = Some (Returns ([HASHMAP_OK, HASHMAP_OK, HASHMAP_OK], Ptr m))
      \<and> map_max_size m = 4
      \<and> hashmap_get (Ptr m) (Ptr ''a'') = Returns (HASHMAP_OK, Some (Ptr 1))
      \<and> hashmap_get (Ptr m) (Ptr ''b'') = Returns (HASHMAP_OK, Some (Ptr 2))
      \<and> hashmap_get (Ptr m) (Ptr ''c'') = Returns (HASHMAP_OK, Some (Ptr 3))"
proof -
  let ?m0 = "new_map 2 hashmap_key_compare_str hashmap_key_hash_str :: (string, nat) hashmap_map"
  let ?kvs = "[(Ptr ''a'', Ptr (1::nat)), (Ptr ''b'', Ptr 2), (Ptr ''c'', Ptr 3)]"
  have new: "hashmap_new True calloc_any 2 NULL NULL = Ptr ?m0"
    by (simp add: hashmap_new_eq strategy_def calloc_any_def)
  have alloc: "\<forall>n. calloc_any n" by (simp add: calloc_any_def)
  have con: "consistent_on (range Ptr) (map_compare ?m0) (map_hash ?m0)"
    by (simp add: consistent_str)
  have keys: "fst ` set ?kvs \<subseteq> range Ptr" by simp
  have len: "length ?kvs = map_max_size ?m0 + 1" by simp
  have dist: "distinct_keys (map_compare ?m0) (map fst ?kvs)"
    by (simp add: distinct_keys_Cons strcmp_eq_0_iff)
  from capacity_growth [OF new alloc con keys len dist, of 0] show ?thesis
    unfolding new by (auto simp: numeral_3_eq_3)
qed

section \<open>The key snapshot\<close>

lemma keys_copy_eq:
  "j \<le> n \<Longrightarrow> length cells = n \<Longrightarrow>
   hashmap_keys_copy bs j n cells =
     take j cells
     @ take (n - j) (map (\<lambda>b. Cell (bucket_key b)) (filter bucket_in_use bs))
     @ drop (j + length (filter bucket_in_use bs)) cells"
proof (induction bs arbitrary: j cells)
  case Nil
  then show ?case by simp
next
  case (Cons b bs)
  show ?case
  proof (cases "j < n")
    case False
    then show ?thesis using Cons.prems by simp
  next
    case lt: True
    show ?thesis
    proof (cases "bucket_in_use b")
      case False
      then show ?thesis using Cons.IH [of j cells] Cons.prems lt by simp
    next
      case True
      have "hashmap_keys_copy (b # bs) j n cells
              = hashmap_keys_copy bs (j + 1) n (cells[j := Cell (bucket_key b)])"
        using lt True by simp
      also have "\<dots> = take (j + 1) (cells[j := Cell (bucket_key b)])
          @ take (n - (j + 1)) (map (\<lambda>b. Cell (bucket_key b)) (filter bucket_in_use bs))
          @ drop (j + 1 + length (filter bucket_in_use bs)) (cells[j := Cell (bucket_key b)])"
        using lt Cons.prems by (intro Cons.IH) simp_all
      also have "take (j + 1) (cells[j := Cell (bucket_key b)])
                   = take j cells @ [Cell (bucket_key b)]"
        using lt Cons.prems by (simp add: take_Suc_conv_app_nth)
      also have "drop (j + 1 + length (filter bucket_in_use bs)) (cells[j := Cell (bucket_key b)])
                   = drop (j + length (filter bucket_in_use (b # bs))) cells"
        using True by simp
      finally show ?thesis
        using lt True by (simp add: take_Cons')
    qed
  qed
qed

lemma length_realloc_cells [simp]: "length (realloc_cells old n) = n"
  by (cases old) (simp_all add: realloc_cells_def)

text \<open>
  What \<^verbatim>\<open>hashmap_keys\<close> returns on a table with a positive count and the dirty flag set,
  when the key array can be allocated: the keys of the occupied buckets in slot-index
  order, cut at \<^verbatim>\<open>_cur_size\<close> entries, followed by whatever the reallocated block held
  where the count exceeds the number of occupied buckets.
\<close>

lemma keys_result:
  assumes "map_cur_size m \<noteq> 0" "map_changed m" "realloc_ok (map_cur_size m)"
  shows "hashmap_keys realloc_ok (Ptr m) =
     (HASHMAP_OK,
      Ptr (m\<lparr>map_keys := Ptr (take (map_cur_size m) (occupied_keys m)
                               @ drop (in_use_count m)
                                   (realloc_cells (map_keys m) (map_cur_size m))),
              map_changed := False\<rparr>),
      Some (Ptr (take (map_cur_size m) (occupied_keys m)
                 @ drop (in_use_count m) (realloc_cells (map_keys m) (map_cur_size m))),
            map_cur_size m))"
  using assms
    keys_copy_eq [of 0 "map_cur_size m" "realloc_cells (map_keys m) (map_cur_size m)"
      "map_buckets m"]
  by (simp add: hashmap_keys_def occupied_keys_def in_use_count_def Let_def)

text \<open>When the count is the number of occupied buckets, the snapshot is exactly their keys.\<close>

lemma keys_accurate:
  assumes "map_cur_size m \<noteq> 0" "map_changed m" "realloc_ok (map_cur_size m)"
    and "in_use_count m = map_cur_size m"
  shows "hashmap_keys realloc_ok (Ptr m) =
     (HASHMAP_OK, Ptr (m\<lparr>map_keys := Ptr (occupied_keys m), map_changed := False\<rparr>),
      Some (Ptr (occupied_keys m), map_cur_size m))"
proof -
  have "length (occupied_keys m) = map_cur_size m"
    using assms(4) by (simp add: occupied_keys_def in_use_count_def)
  then show ?thesis
    using keys_result [where realloc_ok = realloc_ok, OF assms(1-3)] assms(4) by simp
qed

lemma occupied_keys_fill:
  "i < length (map_buckets m) \<Longrightarrow>
   occupied_keys (fill_bucket i key val m) =
     map (\<lambda>b. Cell (bucket_key b)) (filter bucket_in_use (take i (map_buckets m)))
     @ Cell key # map (\<lambda>b. Cell (bucket_key b)) (filter bucket_in_use (drop (Suc i) (map_buckets m)))"
  by (simp add: occupied_keys_def upd_conv_take_nth_drop)

lemma in_use_count_clear:
  "i < length (map_buckets m) \<Longrightarrow>
   in_use_count (clear_bucket i m) =
     (if bucket_in_use (map_buckets m ! i) then in_use_count m - 1 else in_use_count m)"
  using filter_update_length [of i "map_buckets m" bucket_in_use
      "(map_buckets m ! i)\<lparr>bucket_in_use := False\<rparr>"]
  by (simp add: in_use_count_def split: if_splits)

text \<open>
  Claim C2 at a concrete input. On a fresh table of 16 buckets with the string strategies
  the keys \<open>''a''\<close> and \<open>''r''\<close> both start probing at bucket 2. After put \<open>''a''\<close>,
  put \<open>''r''\<close> (which lands in bucket 3), remove \<open>''a''\<close> and put \<open>''r''\<close> again,
  \<^verbatim>\<open>hashmap_hash\<close> has returned the vacated bucket 2 without looking further, and buckets
  2 and 3 are both occupied by \<open>''r''\<close>. A remove of \<open>''r''\<close> then returns the newer
  value 3, and the lookup that follows still finds \<open>''r''\<close>, with the older value 2.
\<close>

theorem put_after_remove_duplicates:
  "hashmap_put 1 calloc_any (hashmap_new True calloc_any 16 NULL NULL) (Ptr ''a'') (Ptr (1::nat))
     = Some (Returns (HASHMAP_OK, Ptr (fill_bucket 2 (Ptr ''a'') (Ptr (1::nat)) (new_map 16 hashmap_key_compare_str hashmap_key_hash_str))))
   \<and> hashmap_put 1 calloc_any (Ptr (fill_bucket 2 (Ptr ''a'') (Ptr (1::nat)) (new_map 16 hashmap_key_compare_str hashmap_key_hash_str))) (Ptr ''r'') (Ptr 2)
     = Some (Returns (HASHMAP_OK, Ptr (fill_bucket 3 (Ptr ''r'') (Ptr 2) (fill_bucket 2 (Ptr ''a'') (Ptr (1::nat)) (new_map 16 hashmap_key_compare_str hashmap_key_hash_str)))))
   \<and> hashmap_remove (Ptr (fill_bucket 3 (Ptr ''r'') (Ptr 2) (fill_bucket 2 (Ptr ''a'') (Ptr (1::nat)) (new_map 16 hashmap_key_compare_str hashmap_key_hash_str)))) (Ptr ''a'') True
     = Returns (HASHMAP_OK, Ptr (clear_bucket 2 (fill_bucket 3 (Ptr ''r'') (Ptr 2) (fill_bucket 2 (Ptr ''a'') (Ptr (1::nat)) (new_map 16 hashmap_key_compare_str hashmap_key_hash_str)))), Some (Ptr 1))
   \<and> hashmap_put 1 calloc_any (Ptr (clear_bucket 2 (fill_bucket 3 (Ptr ''r'') (Ptr 2) (fill_bucket 2 (Ptr ''a'') (Ptr (1::nat)) (new_map 16 hashmap_key_compare_str hashmap_key_hash_str))))) (Ptr ''r'') (Ptr 3)
     = Some (Returns (HASHMAP_OK, Ptr (fill_bucket 2 (Ptr ''r'') (Ptr 3) (clear_bucket 2 (fill_bucket 3 (Ptr ''r'') (Ptr 2) (fill_bucket 2 (Ptr ''a'') (Ptr (1::nat)) (new_map 16 hashmap_key_compare_str hashmap_key_hash_str)))))))
   \<and> bucket_in_use (map_buckets (fill_bucket 2 (Ptr ''r'') (Ptr 3) (clear_bucket 2 (fill_bucket 3 (Ptr ''r'') (Ptr 2) (fill_bucket 2 (Ptr ''a'') (Ptr (1::nat)) (new_map 16 hashmap_key_compare_str hashmap_key_hash_str))))) ! 2)
   \<and> bucket_key (map_buckets (fill_bucket 2 (Ptr ''r'') (Ptr 3) (clear_bucket 2 (fill_bucket 3 (Ptr ''r'') (Ptr 2) (fill_bucket 2 (Ptr ''a'') (Ptr (1::nat)) (new_map 16 hashmap_key_compare_str hashmap_key_hash_str))))) ! 2) = Ptr ''r''
   \<and> bucket_in_use (map_buckets (fill_bucket 2 (Ptr ''r'') (Ptr 3) (clear_bucket 2 (fill_bucket 3 (Ptr ''r'') (Ptr 2) (fill_bucket 2 (Ptr ''a'') (Ptr (1::nat)) (new_map 16 hashmap_key_compare_str hashmap_key_hash_str))))) ! 3)
   \<and> bucket_key (map_buckets (fill_bucket 2 (Ptr ''r'') (Ptr 3) (clear_bucket 2 (fill_bucket 3 (Ptr ''r'') (Ptr 2) (fill_bucket 2 (Ptr ''a'') (Ptr (1::nat)) (new_map 16 hashmap_key_compare_str hashmap_key_hash_str))))) ! 3) = Ptr ''r''
   \<and> map_compare (fill_bucket 2 (Ptr ''r'') (Ptr 3) (clear_bucket 2 (fill_bucket 3 (Ptr ''r'') (Ptr 2) (fill_bucket 2 (Ptr ''a'') (Ptr (1::nat)) (new_map 16 hashmap_key_compare_str hashmap_key_hash_str))))) (Ptr ''r'') (Ptr ''r'') = Returns 0
   \<and> hashmap_remove (Ptr (fill_bucket 2 (Ptr ''r'') (Ptr 3) (clear_bucket 2 (fill_bucket 3 (Ptr ''r'') (Ptr 2) (fill_bucket 2 (Ptr ''a'') (Ptr (1::nat)) (new_map 16 hashmap_key_compare_str hashmap_key_hash_str)))))) (Ptr ''r'') True
     = Returns (HASHMAP_OK, Ptr (clear_bucket 2 (fill_bucket 2 (Ptr ''r'') (Ptr 3) (clear_bucket 2 (fill_bucket 3 (Ptr ''r'') (Ptr 2) (fill_bucket 2 (Ptr ''a'') (Ptr (1::nat)) (new_map 16 hashmap_key_compare_str hashmap_key_hash_str)))))), Some (Ptr 3))
   \<and> hashmap_get (Ptr (clear_bucket 2 (fill_bucket 2 (Ptr ''r'') (Ptr 3) (clear_bucket 2 (fill_bucket 3 (Ptr ''r'') (Ptr 2) (fill_bucket 2 (Ptr ''a'') (Ptr (1::nat)) (new_map 16 hashmap_key_compare_str hashmap_key_hash_str))))))) (Ptr ''r'') = Returns (HASHMAP_OK, Some (Ptr 2))"
  by (simp add: run_simps str_simps strcmp_eq_0_iff)

text \<open>
  Claim C6 at concrete inputs. After putting \<open>''a''\<close> twice into a fresh table one bucket
  is occupied and \<^verbatim>\<open>_cur_size\<close> is 2: \<^verbatim>\<open>hashmap_keys\<close> returns size 2 and an array whose
  second cell was never written. On the table of the previous theorem, where two buckets
  hold \<open>''r''\<close>, it returns that key twice.
\<close>

theorem keys_after_overwrite:
  "hashmap_put 1 calloc_any (hashmap_new True calloc_any 16 NULL NULL) (Ptr ''a'') (Ptr (1::nat))
     = Some (Returns (HASHMAP_OK, Ptr (fill_bucket 2 (Ptr ''a'') (Ptr (1::nat)) (new_map 16 hashmap_key_compare_str hashmap_key_hash_str))))
   \<and> hashmap_put 1 calloc_any (Ptr (fill_bucket 2 (Ptr ''a'') (Ptr (1::nat)) (new_map 16 hashmap_key_compare_str hashmap_key_hash_str))) (Ptr ''a'') (Ptr 2)
     = Some (Returns (HASHMAP_OK, Ptr (fill_bucket 2 (Ptr ''a'') (Ptr 2) (fill_bucket 2 (Ptr ''a'') (Ptr (1::nat)) (new_map 16 hashmap_key_compare_str hashmap_key_hash_str)))))
   \<and> in_use_count (fill_bucket 2 (Ptr ''a'') (Ptr 2) (fill_bucket 2 (Ptr ''a'') (Ptr (1::nat)) (new_map 16 hashmap_key_compare_str hashmap_key_hash_str))) = 1
   \<and> hashmap_keys calloc_any (Ptr (fill_bucket 2 (Ptr ''a'') (Ptr 2) (fill_bucket 2 (Ptr ''a'') (Ptr (1::nat)) (new_map 16 hashmap_key_compare_str hashmap_key_hash_str))))
     = (HASHMAP_OK,
        Ptr ((fill_bucket 2 (Ptr ''a'') (Ptr 2) (fill_bucket 2 (Ptr ''a'') (Ptr (1::nat)) (new_map 16 hashmap_key_compare_str hashmap_key_hash_str)))\<lparr>map_keys := Ptr [Cell (Ptr ''a''), Uninit], map_changed := False\<rparr>),
        Some (Ptr [Cell (Ptr ''a''), Uninit], 2))
   \<and> hashmap_keys calloc_any (Ptr (fill_bucket 2 (Ptr ''r'') (Ptr 3) (clear_bucket 2 (fill_bucket 3 (Ptr ''r'') (Ptr 2) (fill_bucket 2 (Ptr ''a'') (Ptr (1::nat)) (new_map 16 hashmap_key_compare_str hashmap_key_hash_str))))))
     = (HASHMAP_OK,
        Ptr ((fill_bucket 2 (Ptr ''r'') (Ptr 3) (clear_bucket 2 (fill_bucket 3 (Ptr ''r'') (Ptr 2) (fill_bucket 2 (Ptr ''a'') (Ptr (1::nat)) (new_map 16 hashmap_key_compare_str hashmap_key_hash_str)))))\<lparr>map_keys := Ptr [Cell (Ptr ''r''), Cell (Ptr ''r'')], map_changed := False\<rparr>),
        Some (Ptr [Cell (Ptr ''r''), Cell (Ptr ''r'')], 2))"
proof -
  have k1: "hashmap_keys calloc_any (Ptr (fill_bucket 2 (Ptr ''a'') (Ptr 2) (fill_bucket 2 (Ptr ''a'') (Ptr (1::nat)) (new_map 16 hashmap_key_compare_str hashmap_key_hash_str))))
     = (HASHMAP_OK,
        Ptr ((fill_bucket 2 (Ptr ''a'') (Ptr 2) (fill_bucket 2 (Ptr ''a'') (Ptr (1::nat)) (new_map 16 hashmap_key_compare_str hashmap_key_hash_str)))\<lparr>map_keys := Ptr [Cell (Ptr ''a''), Uninit], map_changed := False\<rparr>),
        Some (Ptr [Cell (Ptr ''a''), Uninit], 2))"
    by (subst keys_result)
      (simp_all add: calloc_any_def occupied_keys_fill in_use_count_fill realloc_cells_def
        numeral_2_eq_2)
  have k2: "hashmap_keys calloc_any (Ptr (fill_bucket 2 (Ptr ''r'') (Ptr 3) (clear_bucket 2 (fill_bucket 3 (Ptr ''r'') (Ptr 2) (fill_bucket 2 (Ptr ''a'') (Ptr (1::nat)) (new_map 16 hashmap_key_compare_str hashmap_key_hash_str))))))
     = (HASHMAP_OK,
        Ptr ((fill_bucket 2 (Ptr ''r'') (Ptr 3) (clear_bucket 2 (fill_bucket 3 (Ptr ''r'') (Ptr 2) (fill_bucket 2 (Ptr ''a'') (Ptr (1::nat)) (new_map 16 hashmap_key_compare_str hashmap_key_hash_str)))))\<lparr>map_keys := Ptr [Cell (Ptr ''r''), Cell (Ptr ''r'')], map_changed := False\<rparr>),
        Some (Ptr [Cell (Ptr ''r''), Cell (Ptr ''r'')], 2))"
    by (subst keys_result)
      (simp_all add: calloc_any_def occupied_keys_fill in_use_count_fill realloc_cells_def
        in_use_count_clear numeral_2_eq_2 upd_conv_take_nth_drop)
  show ?thesis
    using k1 k2 by (simp add: run_simps str_simps strcmp_eq_0_iff in_use_count_fill)
qed

section \<open>Tables a program can hold\<close>

lemma sound_put_result:
  assumes "sound m" "put_result calloc m key val = Returns (status, Ptr m')"
  shows "sound m'"
proof -
  have ok: "table_ok m" using assms(1) by (simp add: sound_def)
  obtain index where ix: "hashmap_hash (Ptr m) key = Returns index"
    using assms(2) by (cases "hashmap_hash (Ptr m) key") (auto simp: put_result_def)
  show ?thesis
  proof (cases "index = HASHMAP_FULL")
    case False
    then show ?thesis using assms ix sound_fill [OF assms(1) ix, of val]
      by (simp add: put_result_def)
  next
    case full: True
    show ?thesis
    proof (cases "calloc (2 * map_max_size m)")
      case False
      then show ?thesis using assms ix full by (simp add: put_result_def)
    next
      case True
      obtain m2 where m2: "reinsert (grow m) (map_buckets m) = Returns m2"
        and pl: "place key val m2 = Returns m'"
        using assms(2) ix full True
        by (auto simp: put_result_def split: outcome.splits)
      note rb = rebuilt_sound [OF ok m2]
      show ?thesis using rb(1) rb(8) pl by (rule sound_place)
    qed
  qed
qed

lemma sound_put:
  assumes "sound m" "hashmap_put fuel calloc (Ptr m) key val = Some (Returns (status, Ptr m'))"
  shows "sound m'"
proof (cases fuel)
  case 0
  obtain index where ix: "hashmap_hash (Ptr m) key = Returns index"
    using assms(2) by (cases "hashmap_hash (Ptr m) key") (auto simp: hashmap_put.simps)
  have nf: "index \<noteq> HASHMAP_FULL"
    using assms(2) ix 0 by (auto simp: hashmap_put.simps)
  then have "m' = fill_bucket (nat index) key val m"
    using assms(2) ix by (simp add: put_not_full)
  then show ?thesis using sound_fill [OF assms(1) ix nf, of val] by simp
next
  case (Suc f)
  have "table_ok m" using assms(1) by (simp add: sound_def)
  then show ?thesis using assms sound_put_result Suc by (simp add: put_eq)
qed

lemma find_hit:
  assumes "table_ok m" "hashmap_find (Ptr m) key = Returns r" "0 \<le> r"
  shows "nat r < map_max_size m"
    and "bucket_in_use (map_buckets m ! nat r)"
    and "map_cur_size m \<noteq> 0"
proof -
  show cur: "map_cur_size m \<noteq> 0"
    using assms(2,3) by (auto simp: hashmap_find_eq split: if_splits)
  obtain h where h: "map_hash m key = Returns h"
    using assms(2) cur by (cases "map_hash m key") (auto simp: hashmap_find_eq scan_def)
  have seek: "hashmap_find_seek m key (unat h mod map_max_size m) (map_max_size m) = Returns r"
    using assms(2) cur h by (simp add: hashmap_find_eq scan_def)
  have lt: "unat h mod map_max_size m < map_max_size m"
    using assms(1) by (simp add: table_ok_def)
  show "nat r < map_max_size m" "bucket_in_use (map_buckets m ! nat r)"
    using find_seek_range [OF lt seek] assms(3) by auto
qed

lemma sound_remove:
  assumes "sound m" "hashmap_remove (Ptr m) key has_value = Returns (status, Ptr m', out)"
  shows "sound m'"
proof -
  obtain r where r: "hashmap_find (Ptr m) key = Returns r"
    using assms(2) by (cases "hashmap_find (Ptr m) key") (auto simp: hashmap_remove_def)
  show ?thesis
  proof (cases "r < 0")
    case True
    then show ?thesis using assms r by (simp add: hashmap_remove_def)
  next
    case False
    have ok: "table_ok m" using assms(1) by (simp add: sound_def)
    have nonneg: "0 \<le> r" using False by simp
    note hit = find_hit [OF ok r nonneg]
    have m': "m' = clear_bucket (nat r) m"
      using assms(2) False r by (simp add: hashmap_remove_def)
    have "in_use_count m' = in_use_count m - 1"
      using hit ok unfolding m' by (simp add: in_use_count_clear table_ok_def)
    moreover have "table_ok m'" using ok unfolding m' by (simp add: table_ok_def)
    ultimately show ?thesis using assms(1) unfolding m' by (auto simp: sound_def)
  qed
qed

lemma sound_keys:
  assumes "sound m" "hashmap_keys realloc_ok (Ptr m) = (status, Ptr m', out)"
  shows "sound m'"
  using assms
  by (auto simp: hashmap_keys_def sound_def table_ok_def in_use_count_def Let_def
      split: if_splits)

text \<open>
  Every table a program can hold is well formed, and its count is at least the number of
  occupied buckets; so the hypotheses of the theorems above on \<open>table_ok\<close> and on the
  count hold for all of them.
\<close>

lemma reachable_sound: "reachable m \<Longrightarrow> sound m"
proof (induction rule: reachable.induct)
  case (new calloc_map calloc max_size compare_fun hash_fun m)
  then show ?case
    by (auto simp: hashmap_new_eq sound_def table_ok_def split: if_splits)
next
  case (put m fuel calloc key val status m')
  then show ?case using sound_put by blast
next
  case (remove m key has_value status m' out)
  then show ?case using sound_remove by blast
next
  case (keys m realloc_ok status m' out)
  then show ?case using sound_keys by blast
qed

lemma reachable_table_ok: "reachable m \<Longrightarrow> table_ok m"
  using reachable_sound by (auto simp: sound_def)

lemma reachable_count:
  "reachable m \<Longrightarrow> map_cur_size m = 0 \<longrightarrow> live_values m = []"
  using reachable_sound [of m] by (auto simp: sound_def in_use_count_def live_values_def)

text \<open>
  The converse fails. On a table of two buckets with the string strategies, put \<open>''b''\<close>,
  remove it, put \<open>''a''\<close> twice and remove it: a program can hold the table that results,
  which has no occupied bucket and a count of 1.
\<close>

lemma reachable_drained:
  "reachable (clear_bucket 0 (fill_bucket 0 (Ptr ''a'') (Ptr 2) (fill_bucket 0 (Ptr ''a'') (Ptr 1) (clear_bucket 1 (fill_bucket 1 (Ptr ''b'') (Ptr (7::nat)) (new_map 2 hashmap_key_compare_str hashmap_key_hash_str))))))"
proof -
  let ?m0 = "new_map 2 hashmap_key_compare_str hashmap_key_hash_str :: (string, nat) hashmap_map"
  let ?m1 = "fill_bucket 1 (Ptr ''b'') (Ptr 7) ?m0"
  let ?m2 = "clear_bucket 1 ?m1"
  let ?m3 = "fill_bucket 0 (Ptr ''a'') (Ptr 1) ?m2"
  let ?m4 = "fill_bucket 0 (Ptr ''a'') (Ptr 2) ?m3"
  have "hashmap_new True calloc_any 2 NULL NULL = Ptr ?m0"
    by (simp add: hashmap_new_eq strategy_def calloc_any_def)
  then have r0: "reachable ?m0" by (rule reachable.new)
  have "hashmap_put 1 calloc_any (Ptr ?m0) (Ptr ''b'') (Ptr 7) = Some (Returns (HASHMAP_OK, Ptr ?m1))"
    by (simp add: run_simps str_simps)
  with r0 have r1: "reachable ?m1" by (rule reachable.put)
  have "hashmap_remove (Ptr ?m1) (Ptr ''b'') True = Returns (HASHMAP_OK, Ptr ?m2, Some (Ptr 7))"
    by (simp add: run_simps str_simps strcmp_eq_0_iff)
  with r1 have r2: "reachable ?m2" by (rule reachable.remove)
  have "hashmap_put 1 calloc_any (Ptr ?m2) (Ptr ''a'') (Ptr 1) = Some (Returns (HASHMAP_OK, Ptr ?m3))"
    by (simp add: run_simps str_simps strcmp_eq_0_iff)
  with r2 have r3: "reachable ?m3" by (rule reachable.put)
  have "hashmap_put 1 calloc_any (Ptr ?m3) (Ptr ''a'') (Ptr 2) = Some (Returns (HASHMAP_OK, Ptr ?m4))"
    by (simp add: run_simps str_simps strcmp_eq_0_iff)
  with r3 have r4: "reachable ?m4" by (rule reachable.put)
  have "hashmap_remove (Ptr ?m4) (Ptr ''a'') True
          = Returns (HASHMAP_OK, Ptr (clear_bucket 0 ?m4), Some (Ptr 2))"
    by (simp add: run_simps str_simps strcmp_eq_0_iff)
  with r4 show ?thesis by (rule reachable.remove)
qed

text \<open>
  A table that has only been put into, with consistent strategies, never holds two keys
  that compare equal: the duplicate of \<open>put_after_remove_duplicates\<close> needs a remove.
\<close>

lemma well_kept_no_equal_keys:
  assumes "well_kept D m" and "i < map_max_size m" "bucket_in_use (map_buckets m ! i)"
    and "j < map_max_size m" "bucket_in_use (map_buckets m ! j)"
    and "map_compare m (bucket_key (map_buckets m ! i)) (bucket_key (map_buckets m ! j))
           = Returns 0"
  shows "i = j"
proof -
  have con: "consistent_on D (map_compare m) (map_hash m)" and inv: "finds_own_slot m"
    and kin: "keys_in D m"
    using assms(1) by (simp_all add: well_kept_def)
  have kD: "bucket_key (map_buckets m ! j) \<in> D" using kin assms(4,5) by (rule keys_inD)
  have "probe m (bucket_key (map_buckets m ! j)) = Returns (int i)"
    using own_slot_of_equal_key [OF con kin kD inv assms(2,3,6)] .
  moreover have "probe m (bucket_key (map_buckets m ! j)) = Returns (int j)"
    using inv assms(4,5) unfolding finds_own_slot_def by blast
  ultimately show ?thesis by simp
qed

text \<open>
  The count after a put that lands on an occupied bucket: the number of occupied buckets
  stays, \<^verbatim>\<open>_cur_size\<close> grows by one.
\<close>

lemma put_overwrite_counts:
  assumes "table_ok m" "hashmap_hash (Ptr m) key = Returns index" "index \<noteq> HASHMAP_FULL"
    and "bucket_in_use (map_buckets m ! nat index)"
  shows "hashmap_put fuel calloc (Ptr m) key val
           = Some (Returns (HASHMAP_OK, Ptr (fill_bucket (nat index) key val m)))"
    and "in_use_count (fill_bucket (nat index) key val m) = in_use_count m"
    and "map_cur_size (fill_bucket (nat index) key val m) = map_cur_size m + 1"
proof -
  show "hashmap_put fuel calloc (Ptr m) key val
          = Some (Returns (HASHMAP_OK, Ptr (fill_bucket (nat index) key val m)))"
    using assms(2,3) by (rule put_not_full)
  show "in_use_count (fill_bucket (nat index) key val m) = in_use_count m"
    using hashmap_hash_index(4) [OF assms(1,2,3)] assms(4)
    by (simp add: in_use_count_fill)
  show "map_cur_size (fill_bucket (nat index) key val m) = map_cur_size m + 1" by simp
qed

end
